theory Spec2Isabelle
  imports Main
begin

section \<open>Python values shared by both modules\<close>

text \<open>
  The exceptions the modelled code can raise. \<open>CorrectionError\<close> is the class declared in
  text_buffer.py and carries its message; \<open>IndexError\<close> and \<open>ValueError\<close> are the built-in
  ones raised by \<open>list.pop\<close>, list indexing, \<open>list.remove\<close> and \<open>list.index\<close>;
  \<open>AssertionError\<close> is raised by \<open>assert\<close>.
\<close>

datatype py_error = IndexError | ValueError | AssertionError | CorrectionError string

section \<open>text_buffer.py: messages and the bounded message log\<close>

subsection \<open>Time stamps\<close>

text \<open>
  A \<open>datetime\<close> value as far as text_buffer.py looks at it: the six calendar fields, which
  \<open>strftime\<close> prints with the two formats \<open>%H:%M:%S\<close> and \<open>%Y-%m-%d %H:%M:%S\<close>.
  Every field is printed zero-padded (two digits, four for the year), as the Python
  documentation describes these formats. The C library of Linux prints a year below 1000
  without leading zeros: for such a year the string of \<open>%Y-%m-%d %H:%M:%S\<close> is shorter there
  than in this model, and still longer than 8 characters, which is all that
  \<open>modify_message\<close> tests.
\<close>

record datetime =
  year :: nat
  month :: nat
  day :: nat
  hour :: nat
  minute :: nat
  second :: nat

definition digit :: "nat \<Rightarrow> char" where
  "digit n = ''0123456789'' ! (n mod 10)"

definition pad2 :: "nat \<Rightarrow> string" where
  "pad2 n = [digit (n div 10), digit n]"

definition pad4 :: "nat \<Rightarrow> string" where
  "pad4 n = [digit (n div 1000), digit (n div 100), digit (n div 10), digit n]"

definition strftime_HMS :: "datetime \<Rightarrow> string" where
  "strftime_HMS t = pad2 (hour t) @ '':'' @ pad2 (minute t) @ '':'' @ pad2 (second t)"

definition strftime_Ymd_HMS :: "datetime \<Rightarrow> string" where
  "strftime_Ymd_HMS t =
     pad4 (year t) @ ''-'' @ pad2 (month t) @ ''-'' @ pad2 (day t) @ '' '' @ strftime_HMS t"

subsection \<open>Message\<close>

text \<open>
  \<open>user\<close> is an object reference compared with \<open>is not\<close>, so a user is its identity (a
  handle); \<open>None\<close> is the only falsy value it takes. \<open>identifier\<close> is a string or \<open>None\<close> and
  is compared with \<open>==\<close>. \<open>nick_color\<close> is a colour pair or \<open>None\<close>. The fields \<open>txt\<close> and
  \<open>identifier\<close> are written \<open>txt'\<close> and \<open>identifier'\<close>: both words are reserved in Isabelle.
\<close>

type_synonym user_ref = nat

datatype message = Message
  (txt': string)
  (nick_color: "(int \<times> int) option")
  (time: datetime)
  (str_time: string)
  (nickname: "string option")
  (user: "user_ref option")
  (identifier': "string option")
  (highlight: bool)
  (me: bool)
  (old_message: "message option")
  (revisions: int)

text \<open>
  What \<open>make_message\<close> reads from outside the buffer: the clock (\<open>datetime.now()\<close>), the text
  that \<open>%s\<close> prints for \<open>get_theme().COLOR_ME_MESSAGE[0]\<close>, and the configuration value
  \<open>show_timestamps\<close> read by \<open>add_message\<close>.
\<close>

record env =
  now :: datetime
  info_col :: string
  show_timestamps :: string

definition replace_tabs :: "string \<Rightarrow> string" where
  "replace_tabs s = concat (map (\<lambda>c. if c = CHR 0x09 then ''    '' else [c]) s)"

definition make_message ::
  "env \<Rightarrow> string \<Rightarrow> datetime option \<Rightarrow> string option \<Rightarrow> (int \<times> int) option \<Rightarrow> bool \<Rightarrow>
   user_ref option \<Rightarrow> string option \<Rightarrow> string option \<Rightarrow> bool \<Rightarrow> message option \<Rightarrow> int \<Rightarrow> message"
where
  "make_message e text tm nick col history usr ident strtime hl old revs =
     (let tm1 = (case tm of Some t \<Rightarrow> t | None \<Rightarrow> now e);
          is_me = (take 4 text = ''/me '');
          text1 = (if is_me then [CHR 0x19] @ info_col e @ ''}'' @ drop 4 text else text)
      in Message
           (replace_tabs text1 @ [CHR 0x19, CHR ''o''])
           col
           tm1
           (case strtime of
              None \<Rightarrow> (if history then strftime_Ymd_HMS tm1 else strftime_HMS tm1)
            | Some _ \<Rightarrow> '''')
           nick
           usr
           ident
           hl
           is_me
           old
           revs)"

subsection \<open>TextBuffer\<close>

text \<open>
  The windows attached to a buffer belong to the rendering layer. The buffer only calls
  \<open>build_new_message\<close>, reads \<open>pos\<close> and calls \<open>scroll_up\<close> on them, so a window is any
  type \<open>'w\<close> together with these three operations.
\<close>

record 'w window_ops =
  build_new_message :: "'w \<Rightarrow> message \<Rightarrow> bool \<Rightarrow> bool \<Rightarrow> bool \<Rightarrow> int \<times> 'w"
  win_pos :: "'w \<Rightarrow> int"
  scroll_up :: "'w \<Rightarrow> int \<Rightarrow> 'w"

record 'w text_buffer =
  messages_nb_limit :: int
  messages :: "message list"
  windows :: "'w list"

definition new_text_buffer :: "int \<Rightarrow> 'w text_buffer" where
  "new_text_buffer limit = \<lparr>messages_nb_limit = limit, messages = [], windows = []\<rparr>"

definition last_message :: "'w text_buffer \<Rightarrow> message option" where
  "last_message b = (if messages b = [] then None else Some (last (messages b)))"

text \<open>
  \<open>while len(self.messages) > self.messages_nb_limit: self.messages.pop(0)\<close>.
  With a negative limit the list is emptied and the next \<open>pop(0)\<close> raises \<open>IndexError\<close>.
\<close>

fun evict :: "int \<Rightarrow> message list \<Rightarrow> py_error + message list" where
  "evict limit [] = (if 0 > limit then Inl IndexError else Inr [])"
| "evict limit (m # ms) =
     (if int (length (m # ms)) > limit then evict limit ms else Inr (m # ms))"

text \<open>The \<open>for window in self.windows\<close> loop of \<open>add_message\<close>, threading \<open>ret_val\<close>.\<close>

fun notify_windows ::
  "'w window_ops \<Rightarrow> message \<Rightarrow> bool \<Rightarrow> bool \<Rightarrow> bool \<Rightarrow> 'w list \<Rightarrow> int option \<Rightarrow> int option \<times> 'w list"
where
  "notify_windows ops msg history hl ts [] ret_val = (ret_val, [])"
| "notify_windows ops msg history hl ts (w # ws) ret_val =
     (let (nb, w1) = build_new_message ops w msg history hl ts;
          ret_val1 = (case ret_val of None \<Rightarrow> Some nb | Some r \<Rightarrow> Some r);
          w2 = (if win_pos ops w1 \<noteq> 0 then scroll_up ops w1 nb else w1);
          (r, ws1) = notify_windows ops msg history hl ts ws ret_val1
      in (r, w2 # ws1))"

text \<open>
  \<open>add_message\<close> returns the pair of its outcome (the exception raised, or the returned
  number) and the buffer as it is left.
\<close>

definition add_message ::
  "env \<Rightarrow> 'w window_ops \<Rightarrow> string \<Rightarrow> datetime option \<Rightarrow> string option \<Rightarrow> (int \<times> int) option \<Rightarrow>
   bool \<Rightarrow> user_ref option \<Rightarrow> bool \<Rightarrow> string option \<Rightarrow> string option \<Rightarrow> 'w text_buffer \<Rightarrow>
   (py_error + int) \<times> 'w text_buffer"
where
  "add_message e ops text tm nick col history usr hl ident strtime b =
     (let msg = make_message e text tm nick col history usr ident strtime hl None 0
      in case evict (messages_nb_limit b) (messages b @ [msg]) of
           Inl err \<Rightarrow> (Inl err, b\<lparr>messages := []\<rparr>)
         | Inr ms \<Rightarrow>
             (let (ret_val, ws) =
                    notify_windows ops msg history hl (show_timestamps e \<noteq> ''false'')
                      (windows b) None
              in (Inr (case ret_val of None \<Rightarrow> 1 | Some r \<Rightarrow> if r = 0 then 1 else r),
                  b\<lparr>messages := ms, windows := ws\<rparr>)))"

text \<open>
  The loop \<open>for i in range(len(self.messages) - 1, -1, -1)\<close> of \<open>modify_message\<close>:
  \<open>modify_scan \<dots> ms (Suc i)\<close> is the iteration at index \<open>i\<close>, \<open>modify_scan \<dots> ms 0\<close> the
  code after the loop.
\<close>

fun modify_scan ::
  "env \<Rightarrow> string \<Rightarrow> string option \<Rightarrow> string option \<Rightarrow> bool \<Rightarrow> datetime option \<Rightarrow>
   user_ref option \<Rightarrow> message list \<Rightarrow> nat \<Rightarrow> (py_error + message) \<times> message list"
where
  "modify_scan e text old_id new_id hl tm usr ms 0 =
     (Inl (CorrectionError ''nothing to replace''), ms)"
| "modify_scan e text old_id new_id hl tm usr ms (Suc i) =
     (let msg = ms ! i in
      if identifier' msg = old_id then
        (if user msg \<noteq> None \<and> user msg \<noteq> usr then
           (Inl (CorrectionError ''wrong user''), ms)
         else if length (str_time msg) > 8 then
           (Inl (CorrectionError ''delayed message''), ms)
         else
           (let message =
                  make_message e text (case tm of Some t \<Rightarrow> Some t | None \<Rightarrow> Some (time msg))
                    (nickname msg) (nick_color msg) False (user msg) new_id None hl
                    (Some msg) (revisions msg + 1)
            in (Inr message, ms[i := message])))
      else modify_scan e text old_id new_id hl tm usr ms i)"

definition modify_message ::
  "env \<Rightarrow> string \<Rightarrow> string option \<Rightarrow> string option \<Rightarrow> bool \<Rightarrow> datetime option \<Rightarrow>
   user_ref option \<Rightarrow> 'w text_buffer \<Rightarrow> (py_error + message) \<times> 'w text_buffer"
where
  "modify_message e text old_id new_id hl tm usr b =
     (case modify_scan e text old_id new_id hl tm usr (messages b) (length (messages b)) of
        (r, ms) \<Rightarrow> (r, b\<lparr>messages := ms\<rparr>))"

section \<open>core.py: the tab list and its focus cursor\<close>

subsection \<open>Python lists\<close>

text \<open>
  \<open>xs[i]\<close> for any integer \<open>i\<close>: a negative index counts from the end, and an index out of
  range raises \<open>IndexError\<close>.
\<close>

definition py_get :: "'a list \<Rightarrow> int \<Rightarrow> py_error + 'a" where
  "py_get xs i =
     (let n = int (length xs)
      in if 0 \<le> i \<and> i < n then Inr (xs ! nat i)
         else if - n \<le> i \<and> i < 0 then Inr (xs ! nat (n + i))
         else Inl IndexError)"

text \<open>\<open>xs.insert(i, x)\<close> for \<open>i \<ge> 0\<close>: an index past the end appends.\<close>

definition list_insert :: "'a list \<Rightarrow> nat \<Rightarrow> 'a \<Rightarrow> 'a list" where
  "list_insert xs i x = take i xs @ x # drop i xs"

text \<open>\<open>xs.pop(i)\<close> for \<open>0 \<le> i < len(xs)\<close>.\<close>

definition list_pop :: "'a list \<Rightarrow> nat \<Rightarrow> 'a list" where
  "list_pop xs i = take i xs @ drop (Suc i) xs"

text \<open>\<open>xs.index(x)\<close> where \<open>x\<close> occurs; the length of the list where it does not.\<close>

fun index_of :: "'a list \<Rightarrow> 'a \<Rightarrow> nat" where
  "index_of [] x = 0"
| "index_of (y # ys) x = (if y = x then 0 else Suc (index_of ys x))"

subsection \<open>Tabs\<close>

text \<open>
  A tab is an object: the lists compare tabs with \<open>==\<close>, which is identity for them, so a
  tab is modelled by its class, as far as core.py tests it (\<open>isinstance\<close> with \<open>GapTab\<close> and
  \<open>RosterInfoTab\<close>), and its identity. \<open>OtherTab\<close> stands for every other class of tab.
\<close>

datatype tab = is_GapTab: GapTab nat | is_RosterInfoTab: RosterInfoTab nat | OtherTab nat

text \<open>
  Modelled from the spec: the truth value of a tab (tabs.py is not among the sources).
  A Gap has truthiness false; every other tab is an ordinary object, which is true.
\<close>

definition truthy :: "tab \<Rightarrow> bool" where
  "truthy t = (\<not> is_GapTab t)"

text \<open>
  Modelled from the spec: the property \<open>Tab.nb\<close> (tabs.py is not among the sources). The
  number of a tab is its slot position in the list of tabs. For a tab that is in no slot
  the model gives the length of the list.
\<close>

definition tab_nb :: "tab list \<Rightarrow> tab \<Rightarrow> nat" where
  "tab_nb ts t = index_of ts t"

text \<open>
  The part of \<open>Core\<close> that the tab operations use: the list \<open>tabs\<close>, the field
  \<open>_current_tab_nb\<close> behind the property \<open>current_tab_nb\<close>, and the identity that the next
  object created (\<open>tabs.GapTab()\<close>) receives. The hooks called on tabs (\<open>on_lose_focus\<close>,
  \<open>on_gain_focus\<close>, \<open>on_close\<close>), \<open>refresh_window\<close> and the logger act on the display and
  on the tab objects; they do not touch these fields.
\<close>

record core =
  tabs :: "tab list"
  current_tab_nb :: int
  next_ref :: nat

definition new_GapTab :: "core \<Rightarrow> tab \<times> core" where
  "new_GapTab s = (GapTab (next_ref s), s\<lparr>next_ref := Suc (next_ref s)\<rparr>)"

subsection \<open>The focus cursor\<close>

text \<open>The setter of the property \<open>current_tab_nb\<close>.\<close>

definition wrap_tab_nb :: "tab list \<Rightarrow> int \<Rightarrow> int" where
  "wrap_tab_nb ts v =
     (if v \<ge> int (length ts) then 0
      else if v < 0 then int (length ts) - 1
      else v)"

definition set_current_tab_nb :: "core \<Rightarrow> int \<Rightarrow> core" where
  "set_current_tab_nb s v = s\<lparr>current_tab_nb := wrap_tab_nb (tabs s) v\<rparr>"

definition current_tab :: "core \<Rightarrow> (py_error + tab) \<times> core" where
  "current_tab s =
     (let s1 = set_current_tab_nb s (current_tab_nb s)
      in (py_get (tabs s1) (current_tab_nb s1), s1))"

text \<open>
  \<open>while not self.tabs[self.current_tab_nb]: self.current_tab_nb += 1\<close> and the same loop
  with \<open>-= 1\<close>, on the value of the cursor; every assignment goes through the setter. The
  loops run forever on a list that holds Gaps only: not returning is the value \<open>None\<close>.
  The result is the cursor the loop stops at, with the exception if it stops by one.
\<close>

partial_function (option) skip_gaps_right :: "tab list \<Rightarrow> int \<Rightarrow> ((py_error + unit) \<times> int) option"
where
  "skip_gaps_right ts c =
     (case py_get ts c of
        Inl err \<Rightarrow> Some (Inl err, c)
      | Inr t \<Rightarrow> if truthy t then Some (Inr (), c) else skip_gaps_right ts (wrap_tab_nb ts (c + 1)))"

partial_function (option) skip_gaps_left :: "tab list \<Rightarrow> int \<Rightarrow> ((py_error + unit) \<times> int) option"
where
  "skip_gaps_left ts c =
     (case py_get ts c of
        Inl err \<Rightarrow> Some (Inl err, c)
      | Inr t \<Rightarrow> if truthy t then Some (Inr (), c) else skip_gaps_left ts (wrap_tab_nb ts (c - 1)))"

definition rotate_rooms_right :: "core \<Rightarrow> ((py_error + unit) \<times> core) option" where
  "rotate_rooms_right s =
     (case current_tab s of
        (Inl err, s1) \<Rightarrow> Some (Inl err, s1)
      | (Inr old_tab, s1) \<Rightarrow>
          (let s2 = set_current_tab_nb s1 (current_tab_nb s1 + 1)
           in case skip_gaps_right (tabs s2) (current_tab_nb s2) of
                None \<Rightarrow> None
              | Some (Inl err, c) \<Rightarrow> Some (Inl err, s2\<lparr>current_tab_nb := c\<rparr>)
              | Some (Inr u, c) \<Rightarrow>
                  (case current_tab (s2\<lparr>current_tab_nb := c\<rparr>) of
                     (Inl err, s3) \<Rightarrow> Some (Inl err, s3)
                   | (Inr new_tab, s3) \<Rightarrow> Some (Inr (), s3))))"

definition rotate_rooms_left :: "core \<Rightarrow> ((py_error + unit) \<times> core) option" where
  "rotate_rooms_left s =
     (case current_tab s of
        (Inl err, s1) \<Rightarrow> Some (Inl err, s1)
      | (Inr old_tab, s1) \<Rightarrow>
          (let s2 = set_current_tab_nb s1 (current_tab_nb s1 - 1)
           in case skip_gaps_left (tabs s2) (current_tab_nb s2) of
                None \<Rightarrow> None
              | Some (Inl err, c) \<Rightarrow> Some (Inl err, s2\<lparr>current_tab_nb := c\<rparr>)
              | Some (Inr u, c) \<Rightarrow>
                  (case current_tab (s2\<lparr>current_tab_nb := c\<rparr>) of
                     (Inl err, s3) \<Rightarrow> Some (Inl err, s3)
                   | (Inr new_tab, s3) \<Rightarrow> Some (Inr (), s3))))"

subsection \<open>Moving a tab\<close>

text \<open>
  \<open>insert_tab\<close> is the only caller of \<open>insert_tab_nogaps\<close> and \<open>insert_tab_gaps\<close>, and calls
  them with \<open>0 < old_pos\<close> and \<open>0 < new_pos\<close>: the positions they receive are naturals.
\<close>

definition insert_tab_nogaps :: "core \<Rightarrow> nat \<Rightarrow> nat \<Rightarrow> (py_error + bool) \<times> core" where
  "insert_tab_nogaps s old_pos new_pos =
     (if old_pos \<ge> length (tabs s) then (Inl IndexError, s)
      else
        (let tab = tabs s ! old_pos
         in if new_pos < old_pos then
              (Inr True, s\<lparr>tabs := list_insert (list_pop (tabs s) old_pos) new_pos tab\<rparr>)
            else if new_pos > old_pos then
              (Inr True, s\<lparr>tabs := remove1 tab (list_insert (tabs s) new_pos tab)\<rparr>)
            else (Inr False, s)))"

text \<open>
  The loop that removes the first Gap on the right of index \<open>i\<close>:
  \<open>while not done: i += 1; if i >= len(self.tabs): done = True;
  elif not self.tabs[i]: self.tabs.pop(i); done = True\<close>.
\<close>

function remove_gap_right :: "tab list \<Rightarrow> nat \<Rightarrow> tab list" where
  "remove_gap_right ts i =
     (if Suc i \<ge> length ts then ts
      else if \<not> truthy (ts ! Suc i) then list_pop ts (Suc i)
      else remove_gap_right ts (Suc i))"
  by pat_completeness auto
termination
  by (relation "measure (\<lambda>(ts, i). length ts - i)") auto

text \<open>
  The loops that remove the trailing Gaps:
  \<open>while isinstance(self.tabs[i], tabs.GapTab): self.tabs.pop(); i -= 1\<close> in
  \<open>insert_tab_gaps\<close> and \<open>while not self.tabs[nb]: self.tabs.pop(); nb -= 1\<close> in
  \<open>close_tab\<close>. Both tests say that the tab is a Gap. Both loops start at the last index
  and stay there, as each turn pops the last tab; on an empty list the index is \<open>-1\<close> and
  the read raises \<open>IndexError\<close>.
\<close>

function pop_trailing_gaps :: "tab list \<Rightarrow> int \<Rightarrow> py_error + tab list" where
  "pop_trailing_gaps ts i =
     (case py_get ts i of
        Inl err \<Rightarrow> Inl err
      | Inr t \<Rightarrow> if is_GapTab t then pop_trailing_gaps (butlast ts) (i - 1) else Inr ts)"
  by pat_completeness auto
termination
  by (relation "measure (\<lambda>(ts, i). length ts)") (auto simp: py_get_def Let_def split: if_splits)

definition trim_and_return :: "core \<Rightarrow> tab list \<Rightarrow> (py_error + bool) \<times> core" where
  "trim_and_return s ts =
     (case pop_trailing_gaps ts (int (length ts) - 1) of
        Inl err \<Rightarrow> (Inl err, s\<lparr>tabs := []\<rparr>)
      | Inr ts1 \<Rightarrow> (Inr True, s\<lparr>tabs := ts1\<rparr>))"

definition insert_tab_gaps :: "core \<Rightarrow> nat \<Rightarrow> nat \<Rightarrow> (py_error + bool) \<times> core" where
  "insert_tab_gaps s old_pos new_pos =
     (if old_pos \<ge> length (tabs s) then (Inl IndexError, s)
      else
        (let ts = tabs s;
             tab = ts ! old_pos;
             target = (if new_pos \<ge> length ts then None else Some (ts ! new_pos));
             (gap, s1) = new_GapTab s
         in if (case target of None \<Rightarrow> True | Some t \<Rightarrow> \<not> truthy t) then
              (if new_pos < length ts then
                 trim_and_return s1 ((ts[new_pos := tab])[old_pos := gap])
               else
                 trim_and_return s1 ((ts @ [tab])[old_pos := gap]))
            else if new_pos = old_pos then (Inr False, s)
            else
              (let ts1 = (if new_pos > old_pos then (list_insert ts new_pos tab)[old_pos := gap]
                          else list_insert (ts[old_pos := gap]) new_pos tab)
               in if tab \<notin> set ts1 then (Inl ValueError, s1\<lparr>tabs := ts1\<rparr>)
                  else trim_and_return s1 (remove_gap_right ts1 (index_of ts1 tab)))))"

text \<open>\<open>create_gaps\<close> is the value of \<open>config.get('create_gaps', False)\<close>.\<close>

definition insert_tab :: "bool \<Rightarrow> core \<Rightarrow> int \<Rightarrow> int \<Rightarrow> (py_error + bool) \<times> core" where
  "insert_tab create_gaps s old_pos new_pos =
     (if old_pos \<le> 0 \<or> old_pos \<ge> int (length (tabs s)) then (Inr False, s)
      else if new_pos \<le> 0 then (Inr False, s)
      else if new_pos = old_pos then (Inr False, s)
      else if \<not> truthy (tabs s ! nat old_pos) then (Inr False, s)
      else if create_gaps then insert_tab_gaps s (nat old_pos) (nat new_pos)
      else insert_tab_nogaps s (nat old_pos) (nat new_pos))"

subsection \<open>Closing a tab\<close>

text \<open>
  The last lines of \<open>close_tab\<close>, which bring the cursor back on a tab:
  \<open>if self.current_tab_nb >= len(self.tabs): self.current_tab_nb = len(self.tabs) - 1\<close>,
  the loop to the left and \<open>self.current_tab().on_gain_focus()\<close>.
\<close>

definition refocus :: "core \<Rightarrow> ((py_error + unit) \<times> core) option" where
  "refocus s =
     (let s1 = (if current_tab_nb s \<ge> int (length (tabs s))
                then set_current_tab_nb s (int (length (tabs s)) - 1) else s)
      in case skip_gaps_left (tabs s1) (current_tab_nb s1) of
           None \<Rightarrow> None
         | Some (Inl err, c) \<Rightarrow> Some (Inl err, s1\<lparr>current_tab_nb := c\<rparr>)
         | Some (Inr u, c) \<Rightarrow>
             (case current_tab (s1\<lparr>current_tab_nb := c\<rparr>) of
                (Inl err, s2) \<Rightarrow> Some (Inl err, s2)
              | (Inr new_tab, s2) \<Rightarrow> Some (Inr (), s2)))"

text \<open>
  \<open>close_tab(tab)\<close>; \<open>None\<close> for the argument left out. \<open>tab or self.current_tab()\<close> takes
  the current tab also when the argument is a Gap, which is false.

  The statements \<open>del tab.key_func\<close>, \<open>del tab.commands\<close> and \<open>tab.on_close()\<close> act on the
  tab object, which belongs to tabs.py, and not on the list of tabs; they are left out, and
  so are the lines on the logger and the garbage collector. A tab that is closed a second
  time has lost its attributes: there the code raises \<open>AttributeError\<close> at \<open>del tab.key_func\<close>
  where the model raises \<open>ValueError\<close> at \<open>self.tabs.remove(tab)\<close>; the list of tabs is
  unchanged in both.
\<close>

definition close_tab :: "bool \<Rightarrow> core \<Rightarrow> tab option \<Rightarrow> ((py_error + unit) \<times> core) option" where
  "close_tab create_gaps s arg =
     (case (case arg of
              Some t \<Rightarrow> if truthy t then (Inr t, s) else current_tab s
            | None \<Rightarrow> current_tab s) of
        (Inl err, s1) \<Rightarrow> Some (Inl err, s1)
      | (Inr tab, s1) \<Rightarrow>
          if is_RosterInfoTab tab then Some (Inr (), s1)
          else
            (let ts = tabs s1; nb = tab_nb ts tab
             in if create_gaps then
                  (if int nb \<ge> int (length ts) - 1 then
                     (if tab \<notin> set ts then Some (Inl ValueError, s1)
                      else
                        (case pop_trailing_gaps (remove1 tab ts) (int nb - 1) of
                           Inl err \<Rightarrow> Some (Inl err, s1\<lparr>tabs := []\<rparr>)
                         | Inr ts1 \<Rightarrow> refocus (s1\<lparr>tabs := ts1\<rparr>)))
                   else
                     (let (gap, s2) = new_GapTab s1
                      in refocus (s2\<lparr>tabs := ts[nb := gap]\<rparr>)))
                else
                  (if tab \<notin> set ts then Some (Inl ValueError, s1)
                   else refocus (s1\<lparr>tabs := remove1 tab ts\<rparr>))))"

subsection \<open>Sequences of operations on the tab list\<close>

datatype tab_op = InsertTab int int | CloseTab "tab option"

fun apply_tab_op :: "bool \<Rightarrow> tab_op \<Rightarrow> core \<Rightarrow> ((py_error + unit) \<times> core) option" where
  "apply_tab_op create_gaps (InsertTab old_pos new_pos) s =
     (case insert_tab create_gaps s old_pos new_pos of
        (Inl err, s1) \<Rightarrow> Some (Inl err, s1)
      | (Inr moved, s1) \<Rightarrow> Some (Inr (), s1))"
| "apply_tab_op create_gaps (CloseTab arg) s = close_tab create_gaps s arg"

text \<open>A sequence of operations stops at the first exception and never ends if one operation does not.\<close>

fun run_tab_ops :: "bool \<Rightarrow> tab_op list \<Rightarrow> core \<Rightarrow> ((py_error + unit) \<times> core) option" where
  "run_tab_ops create_gaps [] s = Some (Inr (), s)"
| "run_tab_ops create_gaps (x # xs) s =
     (case apply_tab_op create_gaps x s of
        None \<Rightarrow> None
      | Some (Inl err, s1) \<Rightarrow> Some (Inl err, s1)
      | Some (Inr u, s1) \<Rightarrow> run_tab_ops create_gaps xs s1)"


section \<open>core.py: timed events\<close>

text \<open>
  \<open>check_timed_events\<close>. \<open>self.timed_events\<close> is a set; the list \<open>timed_events\<close> holds its
  elements in the order in which the \<open>for\<close> loop meets them. \<open>has_timed_out event now'\<close> stands
  for \<open>event.has_timed_out(now)\<close> and \<open>call event\<close> for the truth value of what \<open>event()\<close>
  returns; both belong to timed_events.py and are parameters here. The first list of the
  result holds the events that were called, in the order of the calls, the second one is
  the set that is left.

  The loop ends at the \<open>break\<close> that follows \<open>self.timed_events.remove(event)\<close>.
\<close>

fun check_loop ::
  "('e \<Rightarrow> 't \<Rightarrow> bool) \<Rightarrow> ('e \<Rightarrow> bool) \<Rightarrow> 't \<Rightarrow> 'e list \<Rightarrow> 'e list \<Rightarrow> 'e list \<Rightarrow>
   'e list \<times> 'e list" where
  "check_loop has_timed_out call now' [] timed_events fired = (fired, timed_events)"
| "check_loop has_timed_out call now' (event # rest) timed_events fired =
     (if has_timed_out event now' then
        (if call event then check_loop has_timed_out call now' rest timed_events (fired @ [event])
         else (fired @ [event], remove1 event timed_events))
      else check_loop has_timed_out call now' rest timed_events fired)"

definition check_timed_events ::
  "('e \<Rightarrow> 't \<Rightarrow> bool) \<Rightarrow> ('e \<Rightarrow> bool) \<Rightarrow> 't \<Rightarrow> 'e list \<Rightarrow> 'e list \<times> 'e list" where
  "check_timed_events has_timed_out call now' timed_events =
     check_loop has_timed_out call now' timed_events timed_events []"

section \<open>core.py: the main loop on a batch of keys\<close>

text \<open>
  A key is the string that \<open>read_keyboard\<close> returns for it. \<open>config_get key dflt\<close> stands
  for \<open>config.get(key, dflt, 'bindings')\<close>, which belongs to config.py and is a parameter
  here.
\<close>

definition replace_key_with_bound :: "(string \<Rightarrow> string \<Rightarrow> string) \<Rightarrow> string \<Rightarrow> string" where
  "replace_key_with_bound config_get key =
     (let bind = config_get key key in if bind = [] then key else bind)"

text \<open>
  The loop of \<open>separate_chars_from_bindings\<close>, with its two runs \<open>res\<close> and \<open>current\<close>;
  \<open>n\<close> is \<open>len(char_list)\<close>, the length of the whole list. The character \<open>\x1f\<close> is
  \<open>CHR 0x1F\<close> and \<open>\t\<close> is \<open>CHR 0x09\<close>.
\<close>

fun separate_loop ::
  "nat \<Rightarrow> string list \<Rightarrow> string list list \<Rightarrow> string list \<Rightarrow> py_error + string list list" where
  "separate_loop n [] res current = Inr (if current = [] then res else res @ [current])"
| "separate_loop n (char # rest) res current =
     (if length char = 0 then Inl AssertionError
      else
        (let char1 = (if char = [CHR 0x1F] then ''^/'' else char)
         in if length char1 = 1 then separate_loop n rest res (current @ [char1])
            else if char1 = ''^I'' \<and> n \<noteq> 1 then separate_loop n rest res (current @ [[CHR 0x09]])
            else if current = [] then separate_loop n rest (res @ [[char1]]) []
            else separate_loop n rest (res @ [current] @ [[char1]]) []))"

definition separate_chars_from_bindings :: "string list \<Rightarrow> py_error + string list list" where
  "separate_chars_from_bindings char_list = separate_loop (length char_list) char_list [] []"

text \<open>
  The calls that one turn of \<open>while self.running\<close> makes while \<open>self.paused\<close> is true, in
  their order: for each list \<open>char_list\<close> of \<open>separate_chars_from_bindings(big_char_list)\<close>
  the branch \<open>if self.paused\<close> calls \<open>self.current_tab().input.do_command(char_list[0])\<close>,
  \<open>self.current_tab().input.prompt()\<close> and \<open>self.event.set()\<close>, and goes on with the next
  list; \<open>self.doupdate()\<close> follows the loop. The callees belong to windows.py and to the
  threading library; the model records the calls and their arguments.
\<close>

datatype call = Input_do_command string | Input_prompt | Event_set | Doupdate

fun paused_turns :: "string list list \<Rightarrow> call list \<Rightarrow> (py_error + unit) \<times> call list" where
  "paused_turns [] calls = (Inr (), calls)"
| "paused_turns (char_list # rest) calls =
     (case py_get char_list 0 of
        Inl err \<Rightarrow> (Inl err, calls)
      | Inr char \<Rightarrow> paused_turns rest (calls @ [Input_do_command char, Input_prompt, Event_set]))"

definition main_loop_paused ::
  "(string \<Rightarrow> string \<Rightarrow> string) \<Rightarrow> string list \<Rightarrow> (py_error + unit) \<times> call list" where
  "main_loop_paused config_get keys =
     (let big_char_list = map (replace_key_with_bound config_get) keys
      in case separate_chars_from_bindings big_char_list of
           Inl err \<Rightarrow> (Inl err, [])
         | Inr runs \<Rightarrow>
             (case paused_turns runs [] of
                (Inl err, calls) \<Rightarrow> (Inl err, calls)
              | (Inr u, calls) \<Rightarrow> (Inr (), calls @ [Doupdate])))"
section \<open>Notions used to state the properties of the message log\<close>

text \<open>
  The message a correction finds: \<open>modify_message\<close> scans from the most recent message
  backward, so it finds the last index whose message carries the identifier.
\<close>

definition found_index :: "message list \<Rightarrow> string option \<Rightarrow> nat option" where
  "found_index ms old_id = find (\<lambda>i. identifier' (ms ! i) = old_id) (rev [0..<length ms])"

text \<open>
  The three reasons for which a correction is rejected: no message carries the identifier;
  the found message has a user and it is not the supplied one; the found message's
  \<open>str_time\<close> is longer than the eight characters of \<open>%H:%M:%S\<close>, which is how the long
  format of a history replay is recognised.
\<close>

definition correction_fails :: "message list \<Rightarrow> string option \<Rightarrow> user_ref option \<Rightarrow> bool" where
  "correction_fails ms old_id usr =
     (case found_index ms old_id of
        None \<Rightarrow> True
      | Some i \<Rightarrow>
          (user (ms ! i) \<noteq> None \<and> user (ms ! i) \<noteq> usr) \<or> length (str_time (ms ! i)) > 8)"

text \<open>Following \<open>old_message\<close> \<open>n\<close> times.\<close>

fun nth_revision :: "nat \<Rightarrow> message \<Rightarrow> message option" where
  "nth_revision 0 m = Some m"
| "nth_revision (Suc n) m = (case old_message m of None \<Rightarrow> None | Some p \<Rightarrow> nth_revision n p)"

text \<open>
  A call of \<open>modify_message\<close> with its arguments (and the environment it runs in), and a run
  of successful corrections that all find the message in slot \<open>i\<close>: the result is \<open>None\<close>
  as soon as one correction finds another slot or is rejected.
\<close>

type_synonym correction =
  "env \<times> string \<times> string option \<times> string option \<times> bool \<times> datetime option \<times> user_ref option"

fun correct_chain :: "nat \<Rightarrow> correction list \<Rightarrow> 'w text_buffer \<Rightarrow> 'w text_buffer option" where
  "correct_chain i [] b = Some b"
| "correct_chain i ((e, body, old_id, new_id, hl, tm, usr) # cs) b =
     (if found_index (messages b) old_id = Some i then
        (case modify_message e body old_id new_id hl tm usr b of
           (Inr m, b1) \<Rightarrow> correct_chain i cs b1
         | (Inl err, b1) \<Rightarrow> None)
      else None)"

text \<open>
  A call of \<open>add_message\<close> with its arguments, the message it builds, and a sequence of such
  calls on one buffer, which stops at the first exception.
\<close>

type_synonym add_call =
  "env \<times> string \<times> datetime option \<times> string option \<times> (int \<times> int) option \<times> bool \<times>
   user_ref option \<times> bool \<times> string option \<times> string option"

fun made_message :: "add_call \<Rightarrow> message" where
  "made_message (e, body, tm, nick, col, history, usr, hl, ident, strtime) =
     make_message e body tm nick col history usr ident strtime hl None 0"

fun add_messages ::
  "'w window_ops \<Rightarrow> add_call list \<Rightarrow> 'w text_buffer \<Rightarrow> (py_error + unit) \<times> 'w text_buffer"
where
  "add_messages ops [] b = (Inr (), b)"
| "add_messages ops ((e, body, tm, nick, col, history, usr, hl, ident, strtime) # calls) b =
     (case add_message e ops body tm nick col history usr hl ident strtime b of
        (Inl err, b1) \<Rightarrow> (Inl err, b1)
      | (Inr nb, b1) \<Rightarrow> add_messages ops calls b1)"

subsection \<open>The example scenario of the specification\<close>

text \<open>
  Limit 3; append "a", "b", "c", "d"; then correct "d" into "d2" and "d2" into "d3".
  The windows of the example render every message in one line and are not scrolled.
\<close>

definition example_env :: env where
  "example_env =
     \<lparr>now = \<lparr>year = 2014, month = 3, day = 9, hour = 12, minute = 30, second = 5\<rparr>,
      info_col = ''5'', show_timestamps = ''true''\<rparr>"

definition example_ops :: "unit window_ops" where
  "example_ops =
     \<lparr>build_new_message = (\<lambda>w m history hl ts. (1, w)), win_pos = (\<lambda>w. 0),
      scroll_up = (\<lambda>w n. w)\<rparr>"

definition example_call :: "string \<Rightarrow> add_call" where
  "example_call s = (example_env, s, None, Some ''nick'', None, False, None, False, Some s, None)"

definition example_calls :: "add_call list" where
  "example_calls = [example_call ''a'', example_call ''b'', example_call ''c'', example_call ''d'']"

definition example_log :: "unit text_buffer" where
  "example_log = snd (add_messages example_ops example_calls (new_text_buffer 3))"

definition example_corrections :: "correction list" where
  "example_corrections =
     [(example_env, ''d2'', Some ''d'', Some ''d2'', False, None, None),
      (example_env, ''d3'', Some ''d2'', Some ''d3'', False, None, None)]"

definition example_d2 :: message where
  "example_d2 = make_message example_env ''d2'' (Some (now example_env)) (Some ''nick'') None False
     None (Some ''d2'') None False (Some (made_message (example_call ''d''))) 1"

definition example_log_corrected :: "unit text_buffer" where
  "example_log_corrected = the (correct_chain 2 example_corrections example_log)"

text \<open>A log holding one message of user 1, which user 2 then tries to correct.\<close>

definition example_owned_log :: "unit text_buffer" where
  "example_owned_log =
     snd (add_message example_env example_ops ''mine'' None (Some ''nick'') None False (Some 1)
            False (Some ''x'') None (new_text_buffer 3))"

text \<open>A history message appended with its \<open>str_time\<close> supplied by the caller.\<close>

definition example_replayed :: message where
  "example_replayed = make_message example_env ''old'' None (Some ''nick'') None True None
     (Some ''r'') (Some ''2014-03-09 12:30:05'') False None 0"

definition example_replay_log :: "unit text_buffer" where
  "example_replay_log =
     snd (add_message example_env example_ops ''old'' None (Some ''nick'') None True None
            False (Some ''r'') (Some ''2014-03-09 12:30:05'') (new_text_buffer 3))"


section \<open>Notions used to state the properties of the tab list\<close>

text \<open>
  What the loops that remove the trailing Gaps leave of a list that holds a tab other than
  a Gap: the list without the Gaps at its end.
\<close>

definition strip_trailing_gaps :: "tab list \<Rightarrow> tab list" where
  "strip_trailing_gaps ts = rev (dropWhile is_GapTab (rev ts))"

text \<open>The focus cursor is on a slot of the list, and the tab in this slot is not a Gap.\<close>

definition focus_ok :: "core \<Rightarrow> bool" where
  "focus_ok s =
     (0 \<le> current_tab_nb s \<and> current_tab_nb s < int (length (tabs s)) \<and>
      truthy (tabs s ! nat (current_tab_nb s)))"

text \<open>The slot 0 holds the roster tab.\<close>

definition roster_first :: "tab list \<Rightarrow> bool" where
  "roster_first ts = (ts \<noteq> [] \<and> is_RosterInfoTab (ts ! 0))"

text \<open>The slot 0 holds the roster tab and the last slot does not hold a Gap.\<close>

definition gap_invariant :: "tab list \<Rightarrow> bool" where
  "gap_invariant ts = (ts \<noteq> [] \<and> is_RosterInfoTab (ts ! 0) \<and> \<not> is_GapTab (last ts))"

text \<open>
  The list that \<open>insert_tab_gaps\<close> has built when it reaches the comment
  \<open># Remove the trailing gaps\<close>, for a move that \<open>insert_tab\<close> has let through.
\<close>

definition moved_tabs :: "tab list \<Rightarrow> nat \<Rightarrow> nat \<Rightarrow> tab \<Rightarrow> tab list" where
  "moved_tabs ts old_pos new_pos gap =
     (let tab = ts ! old_pos
      in if new_pos \<ge> length ts then (ts @ [tab])[old_pos := gap]
         else if \<not> truthy (ts ! new_pos) then (ts[new_pos := tab])[old_pos := gap]
         else (let ts1 = list_insert (ts[old_pos := gap]) new_pos tab
               in remove_gap_right ts1 (index_of ts1 tab)))"

subsection \<open>Examples\<close>

text \<open>The roster tab and three tabs \<open>A\<close>, \<open>B\<close> and \<open>C\<close> in the slots 1, 2 and 3.\<close>

definition example_core :: core where
  "example_core =
     \<lparr>tabs = [RosterInfoTab 0, OtherTab 1, OtherTab 2, OtherTab 3], current_tab_nb = 0,
      next_ref = 4\<rparr>"

text \<open>The roster tab, two tabs, a Gap and one more tab.\<close>

definition example_core_absorb :: core where
  "example_core_absorb =
     \<lparr>tabs = [RosterInfoTab 0, OtherTab 1, OtherTab 2, GapTab 3, OtherTab 4],
      current_tab_nb = 0, next_ref = 5\<rparr>"

text \<open>The roster tab, a Gap and one tab, with the focus on the roster tab.\<close>

definition example_core_gap :: core where
  "example_core_gap =
     \<lparr>tabs = [RosterInfoTab 0, GapTab 1, OtherTab 2], current_tab_nb = 0, next_ref = 3\<rparr>"

text \<open>A configuration without any binding: \<open>config.get\<close> returns the default.\<close>

definition no_bindings :: "string \<Rightarrow> string \<Rightarrow> string" where
  "no_bindings key dflt = dflt"
section \<open>Properties of the message log\<close>

subsection \<open>Time stamps and the fields of a made message\<close>

lemma length_pad2: "length (pad2 n) = 2"
  by (simp add: pad2_def)

lemma length_strftime_HMS: "length (strftime_HMS t) = 8"
  by (simp add: strftime_HMS_def length_pad2)

lemma length_strftime_Ymd_HMS: "length (strftime_Ymd_HMS t) = 19"
  by (simp add: strftime_Ymd_HMS_def length_pad2 length_strftime_HMS pad4_def)

lemma str_time_live_message:
  "length (str_time (make_message e body tm nick col False usr ident None hl old revs)) = 8"
  by (simp add: make_message_def Let_def length_strftime_HMS)

lemma str_time_history_message:
  "length (str_time (make_message e body tm nick col True usr ident None hl old revs)) = 19"
  by (simp add: make_message_def Let_def length_strftime_Ymd_HMS)

lemma revisions_make_message [simp]:
  "revisions (make_message e body tm nick col history usr ident strtime hl old revs) = revs"
  by (simp add: make_message_def Let_def)

lemma old_message_make_message [simp]:
  "old_message (make_message e body tm nick col history usr ident strtime hl old revs) = old"
  by (simp add: make_message_def Let_def)

lemma identifier_make_message [simp]:
  "identifier' (make_message e body tm nick col history usr ident strtime hl old revs) = ident"
  by (simp add: make_message_def Let_def)

subsection \<open>The backward scan of \<open>modify_message\<close>\<close>

lemma find_rev_upt_less: "find P (rev [0..<n]) = Some i \<Longrightarrow> i < n \<and> P i"
  by (induction n) (auto split: if_splits)

lemma modify_scan_not_found:
  "find (\<lambda>i. identifier' (ms ! i) = old_id) (rev [0..<n]) = None \<Longrightarrow>
   modify_scan e body old_id new_id hl tm usr ms n =
     (Inl (CorrectionError ''nothing to replace''), ms)"
  by (induction n) (auto split: if_splits)

lemma modify_scan_found:
  "find (\<lambda>i. identifier' (ms ! i) = old_id) (rev [0..<n]) = Some i \<Longrightarrow>
   modify_scan e body old_id new_id hl tm usr ms n =
     modify_scan e body old_id new_id hl tm usr ms (Suc i)"
  by (induction n) (auto split: if_splits)

lemma found_index_less:
  "found_index ms old_id = Some i \<Longrightarrow> i < length ms \<and> identifier' (ms ! i) = old_id"
  using find_rev_upt_less [of "\<lambda>i. identifier' (ms ! i) = old_id" "length ms" i]
  by (simp add: found_index_def)

text \<open>\<open>modify_message\<close> by cases on the message it finds.\<close>

lemma modify_message_cases:
  "modify_message e body old_id new_id hl tm usr b =
     (case found_index (messages b) old_id of
        None \<Rightarrow> (Inl (CorrectionError ''nothing to replace''), b)
      | Some i \<Rightarrow>
          (if user (messages b ! i) \<noteq> None \<and> user (messages b ! i) \<noteq> usr then
             (Inl (CorrectionError ''wrong user''), b)
           else if length (str_time (messages b ! i)) > 8 then
             (Inl (CorrectionError ''delayed message''), b)
           else
             (let message =
                    make_message e body
                      (case tm of Some t \<Rightarrow> Some t | None \<Rightarrow> Some (time (messages b ! i)))
                      (nickname (messages b ! i)) (nick_color (messages b ! i)) False
                      (user (messages b ! i)) new_id None hl
                      (Some (messages b ! i)) (revisions (messages b ! i) + 1)
              in (Inr message, b\<lparr>messages := (messages b)[i := message]\<rparr>))))"
proof (cases "found_index (messages b) old_id")
  case None
  then show ?thesis
    by (simp add: modify_message_def found_index_def modify_scan_not_found)
next
  case (Some i)
  then have "identifier' (messages b ! i) = old_id"
    by (simp add: found_index_less)
  with Some show ?thesis
    by (simp add: modify_message_def found_index_def modify_scan_found Let_def)
qed

lemma modify_message_success:
  assumes "modify_message e body old_id new_id hl tm usr b = (Inr m', b')"
  shows "\<exists>i. found_index (messages b) old_id = Some i \<and> i < length (messages b) \<and>
             identifier' (messages b ! i) = old_id \<and>
             old_message m' = Some (messages b ! i) \<and>
             revisions m' = revisions (messages b ! i) + 1 \<and>
             identifier' m' = new_id \<and>
             b' = b\<lparr>messages := (messages b)[i := m']\<rparr>"
proof (cases "found_index (messages b) old_id")
  case None
  with assms show ?thesis by (simp add: modify_message_cases)
next
  case (Some i)
  with assms found_index_less [OF Some] show ?thesis
    by (auto simp: modify_message_cases Let_def split: if_splits)
qed

lemma modify_message_accepts:
  assumes "found_index (messages b) old_id = Some i"
    and "user (messages b ! i) = None \<or> user (messages b ! i) = usr"
    and "length (str_time (messages b ! i)) \<le> 8"
  shows "\<exists>m. modify_message e body old_id new_id hl tm usr b =
           (Inr m, b\<lparr>messages := (messages b)[i := m]\<rparr>)"
  using assms by (auto simp: modify_message_cases Let_def)

lemma modify_message_failure:
  "(\<exists>err. fst (modify_message e body old_id new_id hl tm usr b) = Inl err) \<longleftrightarrow>
     correction_fails (messages b) old_id usr"
  by (auto simp: modify_message_cases correction_fails_def Let_def split: option.splits)

lemma modify_message_failure_unchanged:
  "fst (modify_message e body old_id new_id hl tm usr b) = Inl err \<Longrightarrow>
   snd (modify_message e body old_id new_id hl tm usr b) = b \<and> (\<exists>s. err = CorrectionError s)"
  by (auto simp: modify_message_cases Let_def split: option.splits if_splits)

subsection \<open>Revision chains\<close>

lemma nth_revision_Suc_right:
  "nth_revision (Suc n) x = (case nth_revision n x of None \<Rightarrow> None | Some y \<Rightarrow> old_message y)"
proof (induction n arbitrary: x)
  case 0
  show ?case by (simp split: option.splits)
next
  case (Suc n)
  show ?case
  proof (cases "old_message x")
    case None
    then show ?thesis by simp
  next
    case (Some p)
    have "nth_revision (Suc (Suc n)) x = nth_revision (Suc n) p"
      using Some by simp
    also have "\<dots> = (case nth_revision n p of None \<Rightarrow> None | Some y \<Rightarrow> old_message y)"
      by (rule Suc.IH)
    also have "\<dots> = (case nth_revision (Suc n) x of None \<Rightarrow> None | Some y \<Rightarrow> old_message y)"
      using Some by simp
    finally show ?thesis .
  qed
qed

lemma nth_revision_step:
  "nth_revision n x = Some y \<Longrightarrow> old_message y = Some z \<Longrightarrow> nth_revision (Suc n) x = Some z"
  by (simp only: nth_revision_Suc_right option.case)

lemma correct_chain_revisions:
  "correct_chain i cs b = Some bN \<Longrightarrow> i < length (messages b) \<Longrightarrow>
   length (messages bN) = length (messages b) \<and>
   revisions (messages bN ! i) = revisions (messages b ! i) + int (length cs) \<and>
   nth_revision (length cs) (messages bN ! i) = Some (messages b ! i)"
proof (induction cs arbitrary: b)
  case Nil
  then show ?case by simp
next
  case (Cons c cs)
  obtain e body old_id new_id hl tm usr where c: "c = (e, body, old_id, new_id, hl, tm, usr)"
    by (cases c) auto
  from Cons.prems(1) obtain m b1 where
    fi: "found_index (messages b) old_id = Some i" and
    mm: "modify_message e body old_id new_id hl tm usr b = (Inr m, b1)" and
    rest: "correct_chain i cs b1 = Some bN"
    by (auto simp: c split: if_splits prod.splits sum.splits)
  from modify_message_success [OF mm] fi
  have om: "old_message m = Some (messages b ! i)"
    and rv: "revisions m = revisions (messages b ! i) + 1"
    and b1: "b1 = b\<lparr>messages := (messages b)[i := m]\<rparr>"
    by auto
  have len: "i < length (messages b1)" and at: "messages b1 ! i = m"
    using Cons.prems(2) by (simp_all add: b1)
  from Cons.IH [OF rest len]
  have ih: "length (messages bN) = length (messages b1)"
    "revisions (messages bN ! i) = revisions m + int (length cs)"
    "nth_revision (length cs) (messages bN ! i) = Some m"
    by (simp_all add: at)
  have "nth_revision (Suc (length cs)) (messages bN ! i) = Some (messages b ! i)"
    using nth_revision_step [OF ih(3) om] .
  with ih rv show ?case by (simp add: b1)
qed

subsection \<open>Eviction\<close>

lemma evict_nonneg: "0 \<le> limit \<Longrightarrow> evict limit ms = Inr (drop (length ms - nat limit) ms)"
  by (induction ms) (auto simp: Suc_diff_le)

lemma evict_negative: "limit < 0 \<Longrightarrow> evict limit ms = Inl IndexError"
  by (induction ms) auto

lemma keep_append:
  "drop (length (drop (length xs - L) xs @ ys) - L) (drop (length xs - L) xs @ ys) =
   drop (length (xs @ ys) - L) (xs @ ys)"
  by (cases "length xs \<le> L") (auto simp: add.commute)

lemma add_message_nonneg:
  assumes "0 \<le> messages_nb_limit b"
  shows "\<exists>nb ws. add_message e ops body tm nick col history usr hl ident strtime b =
           (Inr nb, b\<lparr>messages :=
              drop (length (messages b @
                        [made_message (e, body, tm, nick, col, history, usr, hl, ident, strtime)])
                      - nat (messages_nb_limit b))
                (messages b @
                   [made_message (e, body, tm, nick, col, history, usr, hl, ident, strtime)]),
              windows := ws\<rparr>)"
  using assms by (auto simp add: add_message_def evict_nonneg Let_def split: prod.splits)

lemma add_messages_nonneg:
  "0 \<le> messages_nb_limit b \<Longrightarrow>
   \<exists>ws. add_messages ops calls b =
     (Inr (), b\<lparr>messages :=
        (if calls = [] then messages b
         else drop (length (messages b @ map made_message calls) - nat (messages_nb_limit b))
                (messages b @ map made_message calls)),
        windows := ws\<rparr>)"
proof (induction calls arbitrary: b)
  case Nil
  have "b = b\<lparr>messages := messages b, windows := windows b\<rparr>" by simp
  then show ?case by (auto intro: exI [of _ "windows b"])
next
  case (Cons c calls)
  obtain e body tm nick col history usr hl ident strtime
    where c: "c = (e, body, tm, nick, col, history, usr, hl, ident, strtime)"
    by (cases c) auto
  let ?L = "nat (messages_nb_limit b)"
  let ?ms1 = "drop (length (messages b @ [made_message c]) - ?L) (messages b @ [made_message c])"
  from add_message_nonneg [OF Cons.prems, of e ops body tm nick col history usr hl ident strtime]
  obtain nb ws1 where
    am: "add_message e ops body tm nick col history usr hl ident strtime b =
           (Inr nb, b\<lparr>messages := ?ms1, windows := ws1\<rparr>)"
    by (auto simp: c)
  let ?b1 = "b\<lparr>messages := ?ms1, windows := ws1\<rparr>"
  have lim: "0 \<le> messages_nb_limit ?b1" using Cons.prems by simp
  from Cons.IH [OF lim] obtain ws where
    ih: "add_messages ops calls ?b1 =
      (Inr (), ?b1\<lparr>messages :=
        (if calls = [] then messages ?b1
         else drop (length (messages ?b1 @ map made_message calls) - nat (messages_nb_limit ?b1))
                (messages ?b1 @ map made_message calls)),
        windows := ws\<rparr>)"
    by blast
  have keep: "drop (length (?ms1 @ map made_message calls) - ?L) (?ms1 @ map made_message calls) =
      drop (length ((messages b @ [made_message c]) @ map made_message calls) - ?L)
        ((messages b @ [made_message c]) @ map made_message calls)"
    by (rule keep_append)
  have "add_messages ops (c # calls) b = add_messages ops calls ?b1"
    by (simp add: c am)
  also note ih
  finally show ?case
    using keep by (auto intro!: exI [of _ ws])
qed

text \<open>With a negative limit \<open>add_message\<close> empties the log and raises \<open>IndexError\<close>.\<close>

lemma add_message_negative_limit:
  "messages_nb_limit b < 0 \<Longrightarrow>
   add_message e ops body tm nick col history usr hl ident strtime b =
     (Inl IndexError, b\<lparr>messages := []\<rparr>)"
  by (simp add: add_message_def evict_negative Let_def)

subsection \<open>The example scenario\<close>

lemma example_made:
  "made_message (example_call s) =
     Message
       (replace_tabs (if take 4 s = ''/me '' then CHR 0x19 # ''5}'' @ drop 4 s else s) @
          [CHR 0x19, CHR ''o''])
       None (now example_env) ''12:30:05'' (Some ''nick'') None (Some s) False
       (take 4 s = ''/me '') None 0"
  by (simp add: example_call_def make_message_def example_env_def strftime_HMS_def pad2_def
      digit_def Let_def)

lemma example_log_eq:
  "example_log = \<lparr>messages_nb_limit = 3,
     messages = [made_message (example_call ''b''), made_message (example_call ''c''),
                 made_message (example_call ''d'')],
     windows = []\<rparr>"
  by (simp add: example_log_def example_calls_def example_call_def add_message_def
      new_text_buffer_def)

lemma example_found_d: "found_index (messages example_log) (Some ''d'') = Some 2"
  by (simp add: example_log_eq found_index_def example_made)

lemma example_modify_d:
  "modify_message example_env ''d2'' (Some ''d'') (Some ''d2'') False None None example_log =
     (Inr example_d2, example_log\<lparr>messages := (messages example_log)[2 := example_d2]\<rparr>)"
  by (simp add: modify_message_cases example_found_d Let_def)
     (simp add: example_log_eq example_made example_d2_def)

lemma example_d2_fields:
  "identifier' example_d2 = Some ''d2''" "user example_d2 = None"
  "length (str_time example_d2) = 8"
  by (simp_all add: example_d2_def make_message_def Let_def length_strftime_HMS)

lemma example_chain:
  "correct_chain 2 example_corrections example_log = Some example_log_corrected"
proof -
  let ?b1 = "example_log\<lparr>messages := (messages example_log)[2 := example_d2]\<rparr>"
  have ms: "messages ?b1 =
      [made_message (example_call ''b''), made_message (example_call ''c''), example_d2]"
    by (simp add: example_log_eq)
  have f2: "found_index (messages ?b1) (Some ''d2'') = Some 2"
    unfolding ms by (simp add: found_index_def example_d2_fields)
  have ok: "user (messages ?b1 ! 2) = None \<or> user (messages ?b1 ! 2) = None"
    "length (str_time (messages ?b1 ! 2)) \<le> 8"
    unfolding ms by (simp_all add: example_d2_fields)
  from modify_message_accepts [OF f2 ok] obtain m2 where
    "modify_message example_env ''d3'' (Some ''d2'') (Some ''d3'') False None None ?b1 =
       (Inr m2, ?b1\<lparr>messages := (messages ?b1)[2 := m2]\<rparr>)"
    by blast
  with f2 have "correct_chain 2 example_corrections example_log =
      Some (?b1\<lparr>messages := (messages ?b1)[2 := m2]\<rparr>)"
    by (simp add: example_corrections_def example_found_d example_modify_d)
  then show ?thesis
    by (simp add: example_log_corrected_def)
qed

lemma example_owned_log_eq:
  "example_owned_log = \<lparr>messages_nb_limit = 3,
     messages = [make_message example_env ''mine'' None (Some ''nick'') None False (Some 1)
                   (Some ''x'') None False None 0],
     windows = []\<rparr>"
  by (simp add: example_owned_log_def add_message_def new_text_buffer_def Let_def example_ops_def)

lemma example_replay_log_eq:
  "example_replay_log = \<lparr>messages_nb_limit = 3, messages = [example_replayed], windows = []\<rparr>"
  by (simp add: example_replay_log_def add_message_def new_text_buffer_def Let_def example_ops_def
      example_replayed_def)

subsection \<open>Claims about the message log\<close>

text \<open>
  Claim C1. A successful \<open>modify_message\<close> finds the last message carrying \<open>old_id\<close>, at
  some index \<open>i\<close>, and returns a new message whose \<open>old_message\<close> is that message and whose
  \<open>revisions\<close> is one more; the new message takes slot \<open>i\<close> and no other slot changes, so
  the log keeps its length. Hence, when a message with no previous revision and revision
  count 0 sits in slot \<open>k\<close>, after \<open>N\<close> successful corrections that find it there the
  message in slot \<open>k\<close> has revision count \<open>N\<close>, and following \<open>old_message\<close> \<open>N\<close> times from
  it reaches a message with no previous revision.
\<close>

theorem modify_message_revision_chain:
  "(modify_message e body old_id new_id hl tm usr b = (Inr m', b') \<longrightarrow>
      (\<exists>i < length (messages b).
          found_index (messages b) old_id = Some i \<and>
          old_message m' = Some (messages b ! i) \<and>
          revisions m' = revisions (messages b ! i) + 1 \<and>
          messages b' = (messages b)[i := m'] \<and>
          length (messages b') = length (messages b) \<and>
          messages b' ! i = m')) \<and>
   (k < length (messages b0) \<and> revisions (messages b0 ! k) = 0 \<and>
    old_message (messages b0 ! k) = None \<and> correct_chain k cs b0 = Some bN \<longrightarrow>
      revisions (messages bN ! k) = int (length cs) \<and>
      (\<exists>m0. nth_revision (length cs) (messages bN ! k) = Some m0 \<and> old_message m0 = None))"
proof (intro conjI impI)
  assume "modify_message e body old_id new_id hl tm usr b = (Inr m', b')"
  from modify_message_success [OF this]
  show "\<exists>i < length (messages b).
          found_index (messages b) old_id = Some i \<and>
          old_message m' = Some (messages b ! i) \<and>
          revisions m' = revisions (messages b ! i) + 1 \<and>
          messages b' = (messages b)[i := m'] \<and>
          length (messages b') = length (messages b) \<and>
          messages b' ! i = m'"
    by auto
next
  assume a: "k < length (messages b0) \<and> revisions (messages b0 ! k) = 0 \<and>
    old_message (messages b0 ! k) = None \<and> correct_chain k cs b0 = Some bN"
  with correct_chain_revisions [of k cs b0 bN]
  show "revisions (messages bN ! k) = int (length cs)" by simp
  from a correct_chain_revisions [of k cs b0 bN]
  show "\<exists>m0. nth_revision (length cs) (messages bN ! k) = Some m0 \<and> old_message m0 = None"
    by simp
qed

theorem modify_message_revision_chain_witness:
  "(\<exists>i < length (messages example_log).
       found_index (messages example_log) (Some ''d'') = Some i \<and>
       old_message example_d2 = Some (messages example_log ! i) \<and>
       revisions example_d2 = revisions (messages example_log ! i) + 1 \<and>
       (messages example_log)[2 := example_d2] = (messages example_log)[i := example_d2]) \<and>
   revisions (messages example_log_corrected ! 2) = 2 \<and>
   (\<exists>m0. nth_revision 2 (messages example_log_corrected ! 2) = Some m0 \<and> old_message m0 = None)"
proof -
  have h: "2 < length (messages example_log) \<and> revisions (messages example_log ! 2) = 0 \<and>
      old_message (messages example_log ! 2) = None \<and>
      correct_chain 2 example_corrections example_log = Some example_log_corrected"
    by (simp add: example_chain) (simp add: example_log_eq example_made)
  have n: "length example_corrections = 2"
    by (simp add: example_corrections_def)
  from modify_message_revision_chain
    [where e = example_env and body = "''d2''" and old_id = "Some ''d''" and new_id = "Some ''d2''"
       and hl = False and tm = None and usr = None and b = example_log and m' = example_d2
       and b' = "example_log\<lparr>messages := (messages example_log)[2 := example_d2]\<rparr>" and k = 2
       and ?b0.0 = example_log and cs = example_corrections and bN = example_log_corrected]
    example_modify_d h n
  show ?thesis by auto
qed

text \<open>
  Claim C2. With a limit that is not negative, a sequence of \<open>add_message\<close> calls raises
  nothing and leaves the limit as it is; once the log is within its limit (it is from the
  first call on) its length never exceeds the limit, and the log holds the last
  \<open>messages_nb_limit\<close> messages of what it held followed by the appended messages in
  arrival order: the oldest ones are dropped from the front. Appending more messages
  than the limit leaves exactly \<open>messages_nb_limit\<close> messages.
\<close>

theorem add_message_bounded_log:
  assumes "0 \<le> messages_nb_limit b"
  shows "fst (add_messages ops calls b) = Inr () \<and>
         messages_nb_limit (snd (add_messages ops calls b)) = messages_nb_limit b \<and>
         (int (length (messages b)) \<le> messages_nb_limit b \<or> calls \<noteq> [] \<longrightarrow>
            int (length (messages (snd (add_messages ops calls b)))) \<le> messages_nb_limit b \<and>
            messages (snd (add_messages ops calls b)) =
              drop (length (messages b @ map made_message calls) - nat (messages_nb_limit b))
                (messages b @ map made_message calls)) \<and>
         (int (length calls) > messages_nb_limit b \<longrightarrow>
            int (length (messages (snd (add_messages ops calls b)))) = messages_nb_limit b)"
proof -
  from add_messages_nonneg [OF assms, of ops calls] obtain ws where
    r: "add_messages ops calls b =
     (Inr (), b\<lparr>messages :=
        (if calls = [] then messages b
         else drop (length (messages b @ map made_message calls) - nat (messages_nb_limit b))
                (messages b @ map made_message calls)),
        windows := ws\<rparr>)"
    by blast
  show ?thesis
    using assms by (auto simp: r)
qed

theorem add_message_bounded_log_witness:
  "0 \<le> messages_nb_limit (new_text_buffer 3 :: unit text_buffer) \<and>
   int (length example_calls) > 3 \<and>
   int (length (messages example_log)) = 3 \<and>
   messages example_log = map made_message (drop 1 example_calls) \<and>
   map identifier' (messages example_log) = [Some ''b'', Some ''c'', Some ''d'']"
proof -
  have h: "0 \<le> messages_nb_limit (new_text_buffer 3 :: unit text_buffer)"
    by (simp add: new_text_buffer_def)
  have n: "int (length example_calls) > 3"
    by (simp add: example_calls_def)
  from add_message_bounded_log [OF h, of example_ops example_calls] n
  show ?thesis
    by (simp add: example_log_def new_text_buffer_def example_calls_def example_made)
qed

text \<open>
  Claim C6. \<open>modify_message\<close> fails exactly when no message carries \<open>old_id\<close>, or the found
  message has a user that is not the supplied one, or the found message's \<open>str_time\<close> has
  the long format of a history replay. Whenever it fails, what it raises is a
  \<open>CorrectionError\<close> and the buffer is left exactly as it was.
\<close>

theorem modify_message_rejected_unchanged:
  "((\<exists>err. fst (modify_message e body old_id new_id hl tm usr b) = Inl err) \<longleftrightarrow>
       correction_fails (messages b) old_id usr) \<and>
   (fst (modify_message e body old_id new_id hl tm usr b) = Inl err \<longrightarrow>
       (\<exists>s. err = CorrectionError s) \<and>
       snd (modify_message e body old_id new_id hl tm usr b) = b)"
  using modify_message_failure modify_message_failure_unchanged
  by blast

theorem modify_message_rejected_unchanged_witness:
  "correction_fails (messages example_owned_log) (Some ''x'') (Some 2) \<and>
   fst (modify_message example_env ''theirs'' (Some ''x'') (Some ''y'') False None (Some 2)
          example_owned_log) = Inl (CorrectionError ''wrong user'') \<and>
   snd (modify_message example_env ''theirs'' (Some ''x'') (Some ''y'') False None (Some 2)
          example_owned_log) = example_owned_log"
proof -
  have f: "fst (modify_message example_env ''theirs'' (Some ''x'') (Some ''y'') False None (Some 2)
          example_owned_log) = Inl (CorrectionError ''wrong user'')"
    by (simp add: modify_message_def example_owned_log_eq make_message_def Let_def)
  from modify_message_rejected_unchanged
    [of example_env "''theirs''" "Some ''x''" "Some ''y''" False None "Some 2" example_owned_log
       "CorrectionError ''wrong user''"] f
  show ?thesis by auto
qed

text \<open>
  Claim C10. When \<open>make_message\<close> is called with a \<open>str_time\<close> argument, the message it
  builds has the empty string as \<open>str_time\<close>: the supplied value is dropped. A correction
  that finds such a message is therefore never rejected as a delayed message.
\<close>

theorem make_message_supplied_str_time:
  "str_time (make_message e body tm nick col history usr ident (Some s) hl old revs) = '''' \<and>
   (found_index (messages b) old_id = Some i \<and>
    messages b ! i = make_message e body tm nick col history usr ident (Some s) hl old revs \<longrightarrow>
    fst (modify_message e2 body2 old_id new_id hl2 tm2 usr2 b) \<noteq>
      Inl (CorrectionError ''delayed message''))"
  by (auto simp: modify_message_cases Let_def) (simp_all add: make_message_def Let_def)

theorem make_message_supplied_str_time_witness:
  "str_time example_replayed = '''' \<and>
   found_index (messages example_replay_log) (Some ''r'') = Some 0 \<and>
   messages example_replay_log ! 0 = example_replayed \<and>
   fst (modify_message example_env ''new'' (Some ''r'') (Some ''r2'') False None None
          example_replay_log) \<noteq> Inl (CorrectionError ''delayed message'')"
proof -
  have h: "found_index (messages example_replay_log) (Some ''r'') = Some 0 \<and>
      messages example_replay_log ! 0 = example_replayed"
    by (simp add: example_replay_log_eq found_index_def example_replayed_def)
  from make_message_supplied_str_time
    [where e = example_env and s = "''2014-03-09 12:30:05''" and b = example_replay_log
       and old_id = "Some ''r''" and i = 0 and body = "''old''" and tm = None
       and nick = "Some ''nick''" and col = None and history = True and usr = None
       and ident = "Some ''r''" and hl = False and old = None and revs = 0
       and ?e2.0 = example_env and ?body2.0 = "''new''" and new_id = "Some ''r2''"
       and ?hl2.0 = False and ?tm2.0 = None and ?usr2.0 = None]
    h
  show ?thesis by (simp add: example_replayed_def)
qed


section \<open>Properties of the tab list\<close>

declare remove_gap_right.simps [simp del]

declare pop_trailing_gaps.simps [simp del]

lemma py_get_last: "ts \<noteq> [] \<Longrightarrow> py_get ts (int (length ts) - 1) = Inr (last ts)"
  by (cases ts rule: rev_cases) (simp_all add: py_get_def Let_def)

lemma py_get_nil: "py_get [] i = Inl IndexError"
  by (simp add: py_get_def)

lemma py_get_in_range: "0 \<le> i \<Longrightarrow> i < int (length ts) \<Longrightarrow> py_get ts i = Inr (ts ! nat i)"
  by (simp add: py_get_def)

lemma pop_trailing_gaps_eq:
  "pop_trailing_gaps ts (int (length ts) - 1) =
     (if \<forall>t \<in> set ts. is_GapTab t then Inl IndexError else Inr (strip_trailing_gaps ts))"
proof (induction ts rule: rev_induct)
  case Nil
  show ?case by (subst pop_trailing_gaps.simps) (simp add: py_get_nil)
next
  case (snoc x xs)
  have g: "py_get (xs @ [x]) (int (length xs)) = Inr x"
    using py_get_last [of "xs @ [x]"] by simp
  show ?case
  proof (cases "is_GapTab x")
    case True
    have "pop_trailing_gaps (xs @ [x]) (int (length (xs @ [x])) - 1) =
        pop_trailing_gaps xs (int (length xs) - 1)"
      by (subst pop_trailing_gaps.simps) (simp add: g True)
    with snoc True show ?thesis by (simp add: strip_trailing_gaps_def)
  next
    case False
    have "pop_trailing_gaps (xs @ [x]) (int (length (xs @ [x])) - 1) = Inr (xs @ [x])"
      by (subst pop_trailing_gaps.simps) (simp add: g False)
    with False show ?thesis by (auto simp: strip_trailing_gaps_def)
  qed
qed

lemma strip_trailing_gaps_decomp:
  "ts = strip_trailing_gaps ts @ rev (takeWhile is_GapTab (rev ts))"
proof -
  have "strip_trailing_gaps ts @ rev (takeWhile is_GapTab (rev ts)) =
      rev (takeWhile is_GapTab (rev ts) @ dropWhile is_GapTab (rev ts))"
    by (simp only: strip_trailing_gaps_def rev_append)
  also have "\<dots> = rev (rev ts)"
    by (simp only: takeWhile_dropWhile_id)
  finally show ?thesis by simp
qed

lemma strip_trailing_gaps_nth:
  "j < length (strip_trailing_gaps ts) \<Longrightarrow> strip_trailing_gaps ts ! j = ts ! j"
  using strip_trailing_gaps_decomp [of ts] by (metis nth_append)

lemma strip_trailing_gaps_length: "length (strip_trailing_gaps ts) \<le> length ts"
  by (simp add: strip_trailing_gaps_def length_dropWhile_le [of is_GapTab "rev ts", simplified])

lemma strip_trailing_gaps_keeps:
  assumes "j < length ts" "\<not> is_GapTab (ts ! j)"
  shows "j < length (strip_trailing_gaps ts)"
proof (rule ccontr)
  assume "\<not> j < length (strip_trailing_gaps ts)"
  then have ge: "length (strip_trailing_gaps ts) \<le> j" by simp
  let ?g = "rev (takeWhile is_GapTab (rev ts))"
  have d: "ts = strip_trailing_gaps ts @ ?g" by (rule strip_trailing_gaps_decomp)
  have "ts ! j = (strip_trailing_gaps ts @ ?g) ! j" using d by simp
  also have "\<dots> = ?g ! (j - length (strip_trailing_gaps ts))"
    using ge by (simp add: nth_append)
  finally have e: "ts ! j = ?g ! (j - length (strip_trailing_gaps ts))" .
  have "length ts = length (strip_trailing_gaps ts) + length ?g"
    using d by (metis length_append)
  with assms(1) ge have "j - length (strip_trailing_gaps ts) < length ?g" by simp
  then have "?g ! (j - length (strip_trailing_gaps ts)) \<in> set ?g" by (rule nth_mem)
  then have "is_GapTab (?g ! (j - length (strip_trailing_gaps ts)))"
    by (auto dest: set_takeWhileD)
  with e assms(2) show False by simp
qed

lemma strip_trailing_gaps_last:
  "strip_trailing_gaps ts \<noteq> [] \<Longrightarrow> \<not> is_GapTab (last (strip_trailing_gaps ts))"
  by (simp add: strip_trailing_gaps_def last_rev hd_dropWhile)

lemma wrap_tab_nb_in_range:
  "ts \<noteq> [] \<Longrightarrow> 0 \<le> wrap_tab_nb ts v \<and> wrap_tab_nb ts v < int (length ts)"
  by (auto simp: wrap_tab_nb_def)

lemma wrap_tab_nb_id: "0 \<le> v \<Longrightarrow> v < int (length ts) \<Longrightarrow> wrap_tab_nb ts v = v"
  by (simp add: wrap_tab_nb_def)

lemma skip_gaps_left_step:
  "0 \<le> c \<Longrightarrow> c < int (length ts) \<Longrightarrow>
   skip_gaps_left ts c =
     (if truthy (ts ! nat c) then Some (Inr (), c)
      else skip_gaps_left ts (wrap_tab_nb ts (c - 1)))"
  by (subst skip_gaps_left.simps) (simp add: py_get_in_range)

lemma skip_gaps_right_step:
  "0 \<le> c \<Longrightarrow> c < int (length ts) \<Longrightarrow>
   skip_gaps_right ts c =
     (if truthy (ts ! nat c) then Some (Inr (), c)
      else skip_gaps_right ts (wrap_tab_nb ts (c + 1)))"
  by (subst skip_gaps_right.simps) (simp add: py_get_in_range)

lemma skip_gaps_left_in_range:
  "truthy (ts ! 0) \<Longrightarrow> c < length ts \<Longrightarrow>
   \<exists>c'. skip_gaps_left ts (int c) = Some (Inr (), int c') \<and> c' \<le> c \<and> truthy (ts ! c')"
proof (induction c)
  case 0
  then have "skip_gaps_left ts (int 0) = Some (Inr (), int 0)"
    using skip_gaps_left_step [of "int 0" ts] by simp
  with 0 show ?case by blast
next
  case (Suc c)
  have st: "skip_gaps_left ts (int (Suc c)) =
     (if truthy (ts ! Suc c) then Some (Inr (), int (Suc c))
      else skip_gaps_left ts (wrap_tab_nb ts (int (Suc c) - 1)))"
    using skip_gaps_left_step [of "int (Suc c)" ts] Suc.prems(2) by (simp del: of_nat_Suc)
  show ?case
  proof (cases "truthy (ts ! Suc c)")
    case True
    with st have "skip_gaps_left ts (int (Suc c)) = Some (Inr (), int (Suc c))" by simp
    with True show ?thesis by blast
  next
    case False
    have w: "wrap_tab_nb ts (int (Suc c) - 1) = int c"
      using Suc.prems by (simp add: wrap_tab_nb_def)
    from st False have "skip_gaps_left ts (int (Suc c)) = skip_gaps_left ts (int c)"
      by (simp only: w if_False)
    moreover from Suc obtain c' where
      "skip_gaps_left ts (int c) = Some (Inr (), int c')" "c' \<le> c" "truthy (ts ! c')"
      by auto
    ultimately show ?thesis by (auto intro: exI [of _ c'])
  qed
qed

lemma skip_gaps_right_in_range:
  "truthy (ts ! 0) \<Longrightarrow> c < length ts \<Longrightarrow>
   \<exists>c'. skip_gaps_right ts (int c) = Some (Inr (), int c') \<and> c' < length ts \<and> truthy (ts ! c')"
proof (induction "length ts - c" arbitrary: c)
  case 0
  then show ?case by simp
next
  case (Suc n)
  have st: "skip_gaps_right ts (int c) =
     (if truthy (ts ! c) then Some (Inr (), int c)
      else skip_gaps_right ts (wrap_tab_nb ts (int c + 1)))"
    using skip_gaps_right_step [of "int c" ts] Suc.prems(2) by simp
  show ?case
  proof (cases "truthy (ts ! c)")
    case True
    with st have "skip_gaps_right ts (int c) = Some (Inr (), int c)" by simp
    with True Suc.prems show ?thesis by blast
  next
    case False
    with st have step:
      "skip_gaps_right ts (int c) = skip_gaps_right ts (wrap_tab_nb ts (int c + 1))"
      by simp
    show ?thesis
    proof (cases "Suc c < length ts")
      case True
      then have w: "wrap_tab_nb ts (int c + 1) = int (Suc c)"
        by (simp add: wrap_tab_nb_def)
      from Suc.hyps(2) True have "n = length ts - Suc c" by simp
      from Suc.hyps(1) [OF this Suc.prems(1) True] show ?thesis
        by (simp only: step w)
    next
      case False
      with Suc.prems have w: "wrap_tab_nb ts (int c + 1) = int 0"
        by (simp add: wrap_tab_nb_def)
      from Suc.prems(2) have ne: "0 < length ts" by (cases ts) simp_all
      with Suc.prems(1) have z: "skip_gaps_right ts (int 0) = Some (Inr (), int 0)"
        using skip_gaps_right_step [of "int 0" ts] by simp
      have "skip_gaps_right ts (int c) = Some (Inr (), int 0)"
        by (simp only: step w z)
      with Suc.prems show ?thesis
        by (auto intro: exI [of _ 0])
    qed
  qed
qed

lemma skip_gaps_left_total:
  assumes "ts \<noteq> []" "truthy (ts ! 0)"
  shows "\<exists>r c'. skip_gaps_left ts c = Some (r, c')"
proof -
  consider "0 \<le> c \<and> c < int (length ts)" | "c \<ge> int (length ts) \<or> c < - int (length ts)"
    | "- int (length ts) \<le> c \<and> c < 0"
    by linarith
  then show ?thesis
  proof cases
    case 1
    then have "nat c < length ts" by (auto simp: nat_less_iff)
    from skip_gaps_left_in_range [OF assms(2) this] 1 show ?thesis by auto
  next
    case 2
    then have "py_get ts c = Inl IndexError" by (auto simp: py_get_def Let_def)
    then show ?thesis by (subst skip_gaps_left.simps) simp
  next
    case 3
    then have g: "py_get ts c = Inr (ts ! nat (int (length ts) + c))"
      by (simp add: py_get_def Let_def)
    show ?thesis
    proof (cases "truthy (ts ! nat (int (length ts) + c))")
      case True
      then show ?thesis by (subst skip_gaps_left.simps) (simp add: g)
    next
      case False
      from 3 have w: "wrap_tab_nb ts (c - 1) = int (length ts - 1)"
        using assms(1) by (simp add: wrap_tab_nb_def Suc_leI)
      have "length ts - 1 < length ts" using assms(1) by simp
      from skip_gaps_left_in_range [OF assms(2) this] obtain c' where
        "skip_gaps_left ts (int (length ts - 1)) = Some (Inr (), int c')" by blast
      with False have "skip_gaps_left ts c = Some (Inr (), int c')"
        by (subst skip_gaps_left.simps) (simp add: g w)
      then show ?thesis by blast
    qed
  qed
qed

lemma current_tab_in_range:
  assumes "0 \<le> current_tab_nb s" "current_tab_nb s < int (length (tabs s))"
  shows "current_tab s = (Inr (tabs s ! nat (current_tab_nb s)), s)"
  using assms by (simp add: current_tab_def set_current_tab_nb_def wrap_tab_nb_id py_get_in_range)

lemma refocus_ok:
  assumes "tabs s \<noteq> []" "truthy (tabs s ! 0)" "0 \<le> current_tab_nb s"
  shows "\<exists>c. refocus s = Some (Inr (), s\<lparr>current_tab_nb := c\<rparr>) \<and>
             focus_ok (s\<lparr>current_tab_nb := c\<rparr>)"
proof -
  define s1 where "s1 = (if current_tab_nb s \<ge> int (length (tabs s))
                then set_current_tab_nb s (int (length (tabs s)) - 1) else s)"
  have t1: "tabs s1 = tabs s" by (simp add: s1_def set_current_tab_nb_def)
  have r1: "0 \<le> current_tab_nb s1" "current_tab_nb s1 < int (length (tabs s))"
    using assms by (auto simp: s1_def set_current_tab_nb_def wrap_tab_nb_def)
  then have "nat (current_tab_nb s1) < length (tabs s)" by (simp add: nat_less_iff)
  from skip_gaps_left_in_range [OF assms(2) this] r1 obtain c' where
    sk: "skip_gaps_left (tabs s) (current_tab_nb s1) = Some (Inr (), int c')"
    and c': "c' < length (tabs s)" "truthy (tabs s ! c')"
    by auto
  have e: "s1\<lparr>current_tab_nb := int c'\<rparr> = s\<lparr>current_tab_nb := int c'\<rparr>"
    by (simp add: s1_def set_current_tab_nb_def)
  have ct: "current_tab (s\<lparr>current_tab_nb := int c'\<rparr>) =
      (Inr (tabs s ! c'), s\<lparr>current_tab_nb := int c'\<rparr>)"
    using c' current_tab_in_range [of "s\<lparr>current_tab_nb := int c'\<rparr>"] by simp
  have "refocus s = Some (Inr (), s\<lparr>current_tab_nb := int c'\<rparr>)"
    unfolding refocus_def Let_def s1_def [symmetric] t1 sk by (simp add: e ct)
  moreover have "focus_ok (s\<lparr>current_tab_nb := int c'\<rparr>)"
    using c' by (simp add: focus_ok_def)
  ultimately show ?thesis by blast
qed

lemma refocus_total:
  assumes "tabs s \<noteq> []" "truthy (tabs s ! 0)"
  shows "\<exists>r s'. refocus s = Some (r, s') \<and> tabs s' = tabs s \<and> next_ref s' = next_ref s"
proof -
  define s1 where "s1 = (if current_tab_nb s \<ge> int (length (tabs s))
                then set_current_tab_nb s (int (length (tabs s)) - 1) else s)"
  have t1: "tabs s1 = tabs s" "next_ref s1 = next_ref s"
    by (simp_all add: s1_def set_current_tab_nb_def)
  from skip_gaps_left_total [OF assms, of "current_tab_nb s1"] obtain r c where
    sk: "skip_gaps_left (tabs s) (current_tab_nb s1) = Some (r, c)" by blast
  show ?thesis
    unfolding refocus_def Let_def s1_def [symmetric] t1 sk
    by (cases r)
      (auto simp: current_tab_def set_current_tab_nb_def t1 Let_def split: prod.splits sum.splits)
qed

lemma roster_not_gap: "is_RosterInfoTab t \<Longrightarrow> \<not> is_GapTab t"
  by (cases t) simp_all

lemma roster_first_truthy: "roster_first ts \<Longrightarrow> ts \<noteq> [] \<and> truthy (ts ! 0)"
  by (simp add: roster_first_def truthy_def roster_not_gap)

lemma rotate_rooms_right_ok:
  assumes "tabs s \<noteq> []" "truthy (tabs s ! 0)"
  shows "\<exists>c. rotate_rooms_right s = Some (Inr (), s\<lparr>current_tab_nb := c\<rparr>) \<and>
             focus_ok (s\<lparr>current_tab_nb := c\<rparr>)"
proof -
  define c1 where "c1 = wrap_tab_nb (tabs s) (current_tab_nb s)"
  define c2 where "c2 = wrap_tab_nb (tabs s) (c1 + 1)"
  have r1: "0 \<le> c1" "c1 < int (length (tabs s))"
    using wrap_tab_nb_in_range [OF assms(1)] by (simp_all add: c1_def)
  have r2: "0 \<le> c2" "c2 < int (length (tabs s))"
    using wrap_tab_nb_in_range [OF assms(1)] by (simp_all add: c2_def)
  have ct: "current_tab s = (Inr (tabs s ! nat c1), s\<lparr>current_tab_nb := c1\<rparr>)"
    using r1 by (simp add: current_tab_def set_current_tab_nb_def c1_def py_get_in_range Let_def)
  from r2 have "nat c2 < length (tabs s)" by (simp add: nat_less_iff)
  from skip_gaps_right_in_range [OF assms(2) this] r2 obtain c' where
    sk: "skip_gaps_right (tabs s) c2 = Some (Inr (), int c')"
    and c': "c' < length (tabs s)" "truthy (tabs s ! c')"
    by auto
  have ct2: "current_tab (s\<lparr>current_tab_nb := int c'\<rparr>) =
      (Inr (tabs s ! c'), s\<lparr>current_tab_nb := int c'\<rparr>)"
    using c' current_tab_in_range [of "s\<lparr>current_tab_nb := int c'\<rparr>"] by simp
  have "rotate_rooms_right s = Some (Inr (), s\<lparr>current_tab_nb := int c'\<rparr>)"
    by (simp add: rotate_rooms_right_def ct set_current_tab_nb_def c2_def [symmetric] sk ct2)
  moreover have "focus_ok (s\<lparr>current_tab_nb := int c'\<rparr>)"
    using c' by (simp add: focus_ok_def)
  ultimately show ?thesis by blast
qed

lemma rotate_rooms_left_ok:
  assumes "tabs s \<noteq> []" "truthy (tabs s ! 0)"
  shows "\<exists>c. rotate_rooms_left s = Some (Inr (), s\<lparr>current_tab_nb := c\<rparr>) \<and>
             focus_ok (s\<lparr>current_tab_nb := c\<rparr>)"
proof -
  define c1 where "c1 = wrap_tab_nb (tabs s) (current_tab_nb s)"
  define c2 where "c2 = wrap_tab_nb (tabs s) (c1 - 1)"
  have r1: "0 \<le> c1" "c1 < int (length (tabs s))"
    using wrap_tab_nb_in_range [OF assms(1)] by (simp_all add: c1_def)
  have r2: "0 \<le> c2" "c2 < int (length (tabs s))"
    using wrap_tab_nb_in_range [OF assms(1)] by (simp_all add: c2_def)
  have ct: "current_tab s = (Inr (tabs s ! nat c1), s\<lparr>current_tab_nb := c1\<rparr>)"
    using r1 by (simp add: current_tab_def set_current_tab_nb_def c1_def py_get_in_range Let_def)
  from r2 have "nat c2 < length (tabs s)" by (simp add: nat_less_iff)
  from skip_gaps_left_in_range [OF assms(2) this] r2 obtain c' where
    sk: "skip_gaps_left (tabs s) c2 = Some (Inr (), int c')"
    and c': "c' \<le> nat c2" "truthy (tabs s ! c')"
    by auto
  have lt: "c' < length (tabs s)"
    using c'(1) \<open>nat c2 < length (tabs s)\<close> by simp
  have ct2: "current_tab (s\<lparr>current_tab_nb := int c'\<rparr>) =
      (Inr (tabs s ! c'), s\<lparr>current_tab_nb := int c'\<rparr>)"
    using lt current_tab_in_range [of "s\<lparr>current_tab_nb := int c'\<rparr>"] by simp
  have "rotate_rooms_left s = Some (Inr (), s\<lparr>current_tab_nb := int c'\<rparr>)"
    by (simp add: rotate_rooms_left_def ct set_current_tab_nb_def c2_def [symmetric] sk ct2)
  moreover have "focus_ok (s\<lparr>current_tab_nb := int c'\<rparr>)"
    using c' lt by (simp add: focus_ok_def)
  ultimately show ?thesis by blast
qed

lemma index_of_le: "index_of ts t \<le> length ts"
  by (induction ts) auto

lemma index_of_less: "t \<in> set ts \<longleftrightarrow> index_of ts t < length ts"
  by (induction ts) auto

lemma nth_index_of: "t \<in> set ts \<Longrightarrow> ts ! index_of ts t = t"
  by (induction ts) auto

lemma index_of_nth_distinct: "distinct ts \<Longrightarrow> i < length ts \<Longrightarrow> index_of ts (ts ! i) = i"
  by (induction ts arbitrary: i) (auto simp: nth_Cons split: nat.splits)

lemma remove1_last_index:
  "t \<in> set ts \<Longrightarrow> index_of ts t = length ts - 1 \<Longrightarrow> remove1 t ts = butlast ts"
proof (induction ts)
  case Nil
  then show ?case by simp
next
  case (Cons y ys)
  show ?case
  proof (cases "y = t")
    case True
    with Cons.prems show ?thesis by simp
  next
    case False
    with Cons.prems have m: "t \<in> set ys" and i: "Suc (index_of ys t) = length ys" by auto
    from m have ne: "ys \<noteq> []" by auto
    from i have "index_of ys t = length ys - 1" by simp
    from Cons.IH [OF m this] False ne show ?thesis by simp
  qed
qed

lemma strip_trailing_gaps_roster_first:
  assumes "roster_first ts"
  shows "roster_first (strip_trailing_gaps ts)" and "\<not> is_GapTab (last (strip_trailing_gaps ts))"
    and "pop_trailing_gaps ts (int (length ts) - 1) = Inr (strip_trailing_gaps ts)"
proof -
  from assms have ne: "ts \<noteq> []" and r: "is_RosterInfoTab (ts ! 0)"
    by (simp_all add: roster_first_def)
  then have ng: "\<not> is_GapTab (ts ! 0)" by (simp add: roster_not_gap)
  from ne have "0 < length ts" by simp
  from strip_trailing_gaps_keeps [OF this ng] have l: "0 < length (strip_trailing_gaps ts)" .
  with strip_trailing_gaps_nth [OF l] r show "roster_first (strip_trailing_gaps ts)"
    by (simp add: roster_first_def)
  from l show "\<not> is_GapTab (last (strip_trailing_gaps ts))"
    by (simp add: strip_trailing_gaps_last)
  have "ts ! 0 \<in> set ts" using ne by simp
  with ng have "\<not> (\<forall>t \<in> set ts. is_GapTab t)" by blast
  then show "pop_trailing_gaps ts (int (length ts) - 1) = Inr (strip_trailing_gaps ts)"
    by (simp add: pop_trailing_gaps_eq)
qed

lemma refocus_result:
  assumes "roster_first (tabs s)"
  shows "\<exists>r s'. refocus s = Some (r, s') \<and> tabs s' = tabs s \<and>
           (0 \<le> current_tab_nb s \<longrightarrow> r = Inr () \<and> focus_ok s')"
proof (cases "0 \<le> current_tab_nb s")
  case True
  from roster_first_truthy [OF assms] have "tabs s \<noteq> []" "truthy (tabs s ! 0)" by simp_all
  from refocus_ok [OF this True] show ?thesis by auto
next
  case False
  from roster_first_truthy [OF assms] have "tabs s \<noteq> []" "truthy (tabs s ! 0)" by simp_all
  from refocus_total [OF this] False show ?thesis by auto
qed

lemma close_tab_target:
  assumes "roster_first (tabs s)"
  shows "\<exists>tab s1. (case arg of Some t \<Rightarrow> if truthy t then (Inr t, s) else current_tab s
                     | None \<Rightarrow> current_tab s) = (Inr tab, s1) \<and>
           tabs s1 = tabs s \<and> (focus_ok s \<longrightarrow> s1 = s)"
proof -
  from roster_first_truthy [OF assms] have ne: "tabs s \<noteq> []" by simp
  define c where "c = wrap_tab_nb (tabs s) (current_tab_nb s)"
  have r: "0 \<le> c" "c < int (length (tabs s))"
    using wrap_tab_nb_in_range [OF ne] by (simp_all add: c_def)
  have ct: "current_tab s = (Inr (tabs s ! nat c), s\<lparr>current_tab_nb := c\<rparr>)"
    using r by (simp add: current_tab_def set_current_tab_nb_def c_def py_get_in_range Let_def)
  have "focus_ok s \<Longrightarrow> s\<lparr>current_tab_nb := c\<rparr> = s"
    by (simp add: focus_ok_def c_def wrap_tab_nb_id)
  with ct show ?thesis
    by (cases arg) auto
qed

lemma close_tab_result:
  assumes rf: "roster_first (tabs s)"
  shows "\<exists>r s'. close_tab g s arg = Some (r, s') \<and> roster_first (tabs s') \<and>
           (g \<and> \<not> is_GapTab (last (tabs s)) \<longrightarrow> \<not> is_GapTab (last (tabs s'))) \<and>
           (focus_ok s \<longrightarrow> focus_ok s')"
proof -
  from close_tab_target [OF rf, of arg] obtain tab s1 where
    tg: "(case arg of Some t \<Rightarrow> if truthy t then (Inr t, s) else current_tab s
          | None \<Rightarrow> current_tab s) = (Inr tab, s1)"
    and t1: "tabs s1 = tabs s" and f1: "focus_ok s \<longrightarrow> s1 = s"
    by blast
  let ?ts = "tabs s"
  from rf have ne: "?ts \<noteq> []" and r0: "is_RosterInfoTab (?ts ! 0)"
    by (simp_all add: roster_first_def)
  have fpos: "focus_ok s \<Longrightarrow> 0 \<le> current_tab_nb s1"
    using f1 by (auto simp: focus_ok_def)
  show ?thesis
  proof (cases "is_RosterInfoTab tab")
    case True
    then have "close_tab g s arg = Some (Inr (), s1)"
      by (simp add: close_tab_def tg)
    with rf t1 f1 show ?thesis by auto
  next
    case nr: False
    have nb0: "index_of ?ts tab \<noteq> 0"
    proof
      assume "index_of ?ts tab = 0"
      with ne have "?ts ! 0 = tab" by (cases ?ts) (auto split: if_splits)
      with r0 nr show False by simp
    qed
    show ?thesis
    proof (cases "tab \<in> set ?ts")
      case absent: False
      then have "index_of ?ts tab = length ?ts"
        using index_of_less [of tab ?ts] index_of_le [of ?ts tab] by simp
      with absent nr have "close_tab g s arg = Some (Inl ValueError, s1)"
        by (simp add: close_tab_def tg t1 tab_nb_def Let_def)
      with rf t1 f1 show ?thesis by auto
    next
      case present: True
      then have lt: "index_of ?ts tab < length ?ts" by (simp add: index_of_less)
      show ?thesis
      proof (cases g)
        case nogaps: False
        from nb0 present have h: "remove1 tab ?ts ! 0 = ?ts ! 0" "remove1 tab ?ts \<noteq> []"
          by (cases ?ts; auto split: if_splits)+
        with r0 have rf2: "roster_first (tabs (s1\<lparr>tabs := remove1 tab ?ts\<rparr>))"
          by (simp add: roster_first_def)
        from refocus_result [OF rf2] obtain r s' where
          rr: "refocus (s1\<lparr>tabs := remove1 tab ?ts\<rparr>) = Some (r, s')"
          and ts': "tabs s' = remove1 tab ?ts"
          and fo: "0 \<le> current_tab_nb s1 \<longrightarrow> r = Inr () \<and> focus_ok s'"
          by auto
        from nogaps nr present have "close_tab g s arg = Some (r, s')"
          by (simp add: close_tab_def tg t1 tab_nb_def Let_def rr)
        with rf2 ts' fo fpos nogaps show ?thesis by auto
      next
        case gaps: True
        show ?thesis
        proof (cases "int (index_of ?ts tab) \<ge> int (length ?ts) - 1")
          case True
          with lt have ix: "index_of ?ts tab = length ?ts - 1" by simp
          from remove1_last_index [OF present ix] have rm: "remove1 tab ?ts = butlast ?ts" .
          from nb0 ix have l2: "2 \<le> length ?ts" by simp
          then have "length (butlast ?ts) \<noteq> 0" by simp
          then have "butlast ?ts \<noteq> []" by (simp only: length_0_conv not_False_eq_True)
          with l2 have "roster_first (butlast ?ts)"
            using r0 by (simp add: roster_first_def nth_butlast)
          from strip_trailing_gaps_roster_first [OF this]
          have st: "roster_first (strip_trailing_gaps (butlast ?ts))"
            "\<not> is_GapTab (last (strip_trailing_gaps (butlast ?ts)))"
            "pop_trailing_gaps (butlast ?ts) (int (length (butlast ?ts)) - 1) =
               Inr (strip_trailing_gaps (butlast ?ts))" .
          have idx: "int (index_of ?ts tab) - 1 = int (length (butlast ?ts)) - 1"
            using ix l2 by simp
          have pt: "pop_trailing_gaps (butlast ?ts) (int (index_of ?ts tab) - 1) =
               Inr (strip_trailing_gaps (butlast ?ts))"
            by (simp only: idx st(3))
          from st(1) have rf2:
            "roster_first (tabs (s1\<lparr>tabs := strip_trailing_gaps (butlast ?ts)\<rparr>))" by simp
          from refocus_result [OF rf2] obtain r s' where
            rr: "refocus (s1\<lparr>tabs := strip_trailing_gaps (butlast ?ts)\<rparr>) = Some (r, s')"
            and ts': "tabs s' = strip_trailing_gaps (butlast ?ts)"
            and fo: "0 \<le> current_tab_nb s1 \<longrightarrow> r = Inr () \<and> focus_ok s'"
            by auto
          from gaps nr present True have "close_tab g s arg = Some (r, s')"
            by (simp add: close_tab_def tg t1 tab_nb_def Let_def rm pt rr)
          with st ts' fo fpos show ?thesis by auto
        next
          case False
          then have lt2: "index_of ?ts tab < length ?ts - 1" by simp
          let ?ts1 = "?ts[index_of ?ts tab := GapTab (next_ref s1)]"
          have rf1: "roster_first ?ts1"
            using nb0 r0 ne by (simp add: roster_first_def)
          have la: "last ?ts1 = last ?ts"
            using lt2 ne by (simp add: last_conv_nth)
          let ?s2 = "s1\<lparr>next_ref := Suc (next_ref s1), tabs := ?ts1\<rparr>"
          from rf1 have rf2: "roster_first (tabs ?s2)" by simp
          from refocus_result [OF rf2] obtain r s' where
            rr: "refocus ?s2 = Some (r, s')"
            and ts': "tabs s' = ?ts1"
            and fo: "0 \<le> current_tab_nb s1 \<longrightarrow> r = Inr () \<and> focus_ok s'"
            by auto
          from gaps nr False have "close_tab g s arg = Some (r, s')"
            by (simp add: close_tab_def tg t1 tab_nb_def Let_def new_GapTab_def rr)
          with rf1 la ts' fo fpos show ?thesis by auto
        qed
      qed
    qed
  qed
qed

lemma length_list_insert [simp]: "length (list_insert xs i x) = Suc (length xs)"
  by (simp add: list_insert_def)

lemma nth_list_insert:
  "i \<le> length xs \<Longrightarrow>
   list_insert xs i x ! j = (if j < i then xs ! j else if j = i then x else xs ! (j - 1))"
proof -
  assume le: "i \<le> length xs"
  have l: "length (take i xs) = i" using le by simp
  consider "j < i" | "j = i" | "i < j" by linarith
  then show ?thesis
  proof cases
    case 1
    then show ?thesis using le by (simp add: list_insert_def nth_append)
  next
    case 2
    then show ?thesis using le by (simp add: list_insert_def nth_append)
  next
    case 3
    then obtain d where d: "j = Suc (i + d)" using less_imp_Suc_add by blast
    have "list_insert xs i x ! j = (x # drop i xs) ! (j - i)"
      using 3 le by (simp add: list_insert_def nth_append)
    also have "\<dots> = xs ! (i + d)" using le by (simp add: d)
    finally show ?thesis using 3 by (simp add: d)
  qed
qed

lemma length_list_pop [simp]: "g < length xs \<Longrightarrow> length (list_pop xs g) = length xs - 1"
  by (simp add: list_pop_def)

lemma nth_list_pop:
  "g < length xs \<Longrightarrow> j < length xs - 1 \<Longrightarrow>
   list_pop xs g ! j = (if j < g then xs ! j else xs ! Suc j)"
  by (auto simp: list_pop_def nth_append min_def)

lemma list_insert_update_swap:
  "o' < n \<Longrightarrow> n \<le> length ts \<Longrightarrow> (list_insert ts n x)[o' := g] = list_insert (ts[o' := g]) n x"
  by (simp add: list_insert_def list_update_append take_update_swap)

lemma remove_gap_right_cases:
  "(remove_gap_right ts i = ts \<and> (\<forall>j. i < j \<and> j < length ts \<longrightarrow> truthy (ts ! j))) \<or>
   (\<exists>g. i < g \<and> g < length ts \<and> \<not> truthy (ts ! g) \<and>
        (\<forall>j. i < j \<and> j < g \<longrightarrow> truthy (ts ! j)) \<and> remove_gap_right ts i = list_pop ts g)"
proof (induction ts i rule: remove_gap_right.induct)
  case (1 ts i)
  show ?case
  proof (cases "Suc i \<ge> length ts")
    case True
    then have "remove_gap_right ts i = ts" by (subst remove_gap_right.simps) simp
    with True show ?thesis by auto
  next
    case in_range: False
    show ?thesis
    proof (cases "truthy (ts ! Suc i)")
      case False
      with in_range have "remove_gap_right ts i = list_pop ts (Suc i)"
        by (subst remove_gap_right.simps) simp
      with in_range False show ?thesis
        by (intro disjI2 exI [of _ "Suc i"]) auto
    next
      case True
      with in_range have e: "remove_gap_right ts i = remove_gap_right ts (Suc i)"
        by (subst remove_gap_right.simps) simp
      have step: "\<And>j. i < j \<Longrightarrow> j = Suc i \<or> Suc i < j" by auto
      from "1.IH" [OF in_range] True
      consider (none) "remove_gap_right ts (Suc i) = ts"
          "\<forall>j. Suc i < j \<and> j < length ts \<longrightarrow> truthy (ts ! j)"
        | (some) g where "Suc i < g" "g < length ts" "\<not> truthy (ts ! g)"
          "\<forall>j. Suc i < j \<and> j < g \<longrightarrow> truthy (ts ! j)" "remove_gap_right ts (Suc i) = list_pop ts g"
        by auto
      then show ?thesis
      proof cases
        case none
        with True e step show ?thesis by (intro disjI1) (metis)
      next
        case some
        with True e step show ?thesis
          by (intro disjI2 exI [of _ g]) (metis Suc_lessD)
      qed
    qed
  qed
qed

lemma index_of_first:
  "k < length xs \<Longrightarrow> xs ! k = x \<Longrightarrow> (\<forall>j < k. xs ! j \<noteq> x) \<Longrightarrow> index_of xs x = k"
proof (induction xs arbitrary: k)
  case Nil
  then show ?case by simp
next
  case (Cons y ys)
  show ?case
  proof (cases k)
    case 0
    with Cons.prems show ?thesis by simp
  next
    case (Suc k')
    with Cons.prems have "y \<noteq> x" by auto
    moreover from Cons.prems Suc have "index_of ys x = k'"
      by (intro Cons.IH) auto
    ultimately show ?thesis using Suc by simp
  qed
qed

lemma remove_gap_right_keeps:
  assumes "t \<in> set ts" "truthy t"
  shows "t \<in> set (remove_gap_right ts i)"
proof -
  from remove_gap_right_cases [of ts i]
  consider "remove_gap_right ts i = ts"
    | g where "g < length ts" "\<not> truthy (ts ! g)" "remove_gap_right ts i = list_pop ts g"
    by auto
  then show ?thesis
  proof cases
    case 1
    with assms show ?thesis by simp
  next
    case 2
    from 2(1) have e: "take g ts @ ts ! g # drop (Suc g) ts = ts"
      by (rule id_take_nth_drop [symmetric])
    have "t \<in> set (take g ts @ ts ! g # drop (Suc g) ts)"
      using assms(1) by (simp only: e)
    then have "t \<in> set (take g ts) \<or> t = ts ! g \<or> t \<in> set (drop (Suc g) ts)"
      by auto
    with assms(2) 2(2) have "t \<in> set (take g ts) \<union> set (drop (Suc g) ts)" by auto
    with 2(3) show ?thesis by (simp add: list_pop_def)
  qed
qed

lemma remove_gap_right_first:
  assumes "ts \<noteq> []"
  shows "remove_gap_right ts i \<noteq> [] \<and> remove_gap_right ts i ! 0 = ts ! 0"
proof -
  from remove_gap_right_cases [of ts i]
  consider "remove_gap_right ts i = ts"
    | g where "i < g" "g < length ts" "remove_gap_right ts i = list_pop ts g"
    by auto
  then show ?thesis
  proof cases
    case 1
    with assms show ?thesis by simp
  next
    case 2
    then have "0 < g" by simp
    with 2 show ?thesis by (auto simp: list_pop_def nth_append)
  qed
qed

lemma moved_tabs_member:
  assumes "o' < length ts" "n \<noteq> o'" "truthy (ts ! o')"
  shows "ts ! o' \<in> set (moved_tabs ts o' n gap)"
proof -
  consider "n \<ge> length ts" | "n < length ts" "\<not> truthy (ts ! n)" | "n < length ts" "truthy (ts ! n)"
    by linarith
  then show ?thesis
  proof cases
    case 1
    with assms show ?thesis
      by (simp add: moved_tabs_def list_update_append)
  next
    case 2
    with assms have "((ts[n := ts ! o'])[o' := gap]) ! n = ts ! o'" by simp
    moreover have "n < length ((ts[n := ts ! o'])[o' := gap])" using 2 by simp
    ultimately have "ts ! o' \<in> set ((ts[n := ts ! o'])[o' := gap])" by (metis nth_mem)
    with 2 show ?thesis by (simp add: moved_tabs_def)
  next
    case 3
    let ?ts1 = "list_insert (ts[o' := gap]) n (ts ! o')"
    have "?ts1 ! n = ts ! o'" using 3 by (simp add: nth_list_insert)
    moreover have "n < length ?ts1" using 3 by simp
    ultimately have m: "ts ! o' \<in> set ?ts1" by (metis nth_mem)
    from remove_gap_right_keeps [OF m assms(3)] 3 show ?thesis
      by (simp add: moved_tabs_def Let_def)
  qed
qed

lemma moved_tabs_first:
  assumes "0 < o'" "o' < length ts" "0 < n"
  shows "moved_tabs ts o' n gap \<noteq> [] \<and> moved_tabs ts o' n gap ! 0 = ts ! 0"
proof -
  from assms have ne: "ts \<noteq> []" by auto
  consider "n \<ge> length ts" | "n < length ts" "\<not> truthy (ts ! n)" | "n < length ts" "truthy (ts ! n)"
    by linarith
  then show ?thesis
  proof cases
    case 1
    with assms ne show ?thesis
      by (simp add: moved_tabs_def nth_append)
  next
    case 2
    with assms ne show ?thesis by (simp add: moved_tabs_def)
  next
    case 3
    let ?ts1 = "list_insert (ts[o' := gap]) n (ts ! o')"
    have "?ts1 \<noteq> []" by (simp add: list_insert_def)
    moreover have "?ts1 ! 0 = ts ! 0" using 3 assms by (simp add: nth_list_insert)
    ultimately show ?thesis
      using remove_gap_right_first [of ?ts1 "index_of ?ts1 (ts ! o')"] 3
      by (simp add: moved_tabs_def Let_def)
  qed
qed

lemma insert_tab_gaps_eq:
  assumes "o' < length (tabs s)" "n \<noteq> o'" "truthy (tabs s ! o')"
  shows "insert_tab_gaps s o' n =
     (Inr True, s\<lparr>next_ref := Suc (next_ref s),
                  tabs := strip_trailing_gaps (moved_tabs (tabs s) o' n (GapTab (next_ref s)))\<rparr>)"
proof -
  let ?ts = "tabs s" and ?gap = "GapTab (next_ref s)"
  let ?m = "moved_tabs ?ts o' n ?gap"
  from moved_tabs_member [OF assms] have mem: "?ts ! o' \<in> set ?m" .
  with assms(3) have "\<not> (\<forall>t \<in> set ?m. is_GapTab t)" by (auto simp: truthy_def)
  then have pt: "pop_trailing_gaps ?m (int (length ?m) - 1) = Inr (strip_trailing_gaps ?m)"
    by (simp add: pop_trailing_gaps_eq)
  then have tr: "trim_and_return (s\<lparr>next_ref := Suc (next_ref s)\<rparr>) ?m =
      (Inr True, s\<lparr>next_ref := Suc (next_ref s), tabs := strip_trailing_gaps ?m\<rparr>)"
    by (simp add: trim_and_return_def)
  consider "n \<ge> length ?ts" | "n < length ?ts" "\<not> truthy (?ts ! n)"
    | "n < length ?ts" "truthy (?ts ! n)"
    by linarith
  then show ?thesis
  proof cases
    case 1
    then have m: "?m = (?ts @ [?ts ! o'])[o' := ?gap]" by (simp add: moved_tabs_def)
    from 1 assms show ?thesis
      unfolding insert_tab_gaps_def new_GapTab_def Let_def
      by (simp add: tr [unfolded m] m)
  next
    case 2
    then have m: "?m = (?ts[n := ?ts ! o'])[o' := ?gap]" by (simp add: moved_tabs_def)
    from 2 assms show ?thesis
      unfolding insert_tab_gaps_def new_GapTab_def Let_def
      by (simp add: tr [unfolded m] m)
  next
    case 3
    let ?ts1 = "list_insert (?ts[o' := ?gap]) n (?ts ! o')"
    have m: "?m = remove_gap_right ?ts1 (index_of ?ts1 (?ts ! o'))"
      using 3 by (simp add: moved_tabs_def Let_def)
    have sw: "n > o' \<Longrightarrow> (list_insert ?ts n (?ts ! o'))[o' := ?gap] = ?ts1"
      using 3 by (simp add: list_insert_update_swap)
    have "?ts1 ! n = ?ts ! o'" using 3 by (simp add: nth_list_insert)
    moreover have "n < length ?ts1" using 3 by simp
    ultimately have m1: "?ts ! o' \<in> set ?ts1" by (metis nth_mem)
    have tr1: "trim_and_return (s\<lparr>next_ref := Suc (next_ref s)\<rparr>)
        (remove_gap_right ?ts1 (index_of ?ts1 (?ts ! o'))) =
      (Inr True, s\<lparr>next_ref := Suc (next_ref s), tabs := strip_trailing_gaps ?m\<rparr>)"
      using tr by (simp only: m)
    show ?thesis
    proof (cases "n > o'")
      case True
      with 3 assms show ?thesis
        unfolding insert_tab_gaps_def new_GapTab_def Let_def
        by (simp add: sw m1 tr1)
    next
      case False
      with assms(2) have "n < o'" by simp
      with 3 assms show ?thesis
        unfolding insert_tab_gaps_def new_GapTab_def Let_def
        by (simp add: m1 tr1)
    qed
  qed
qed

lemma insert_tab_refused:
  "old_pos \<le> 0 \<or> old_pos \<ge> int (length (tabs s)) \<or> new_pos \<le> 0 \<or> new_pos = old_pos \<or>
     \<not> truthy (tabs s ! nat old_pos) \<Longrightarrow>
   insert_tab g s old_pos new_pos = (Inr False, s)"
  by (auto simp: insert_tab_def)

lemma insert_tab_with_gaps:
  assumes "0 < old_pos" "old_pos < int (length (tabs s))" "0 < new_pos" "new_pos \<noteq> old_pos"
    "truthy (tabs s ! nat old_pos)"
  shows "insert_tab True s old_pos new_pos =
     (Inr True, s\<lparr>next_ref := Suc (next_ref s),
        tabs := strip_trailing_gaps
                  (moved_tabs (tabs s) (nat old_pos) (nat new_pos) (GapTab (next_ref s)))\<rparr>)"
proof -
  have a: "nat old_pos < length (tabs s)" using assms by (simp add: nat_less_iff)
  have b: "nat new_pos \<noteq> nat old_pos" using assms by simp
  have "insert_tab True s old_pos new_pos = insert_tab_gaps s (nat old_pos) (nat new_pos)"
    using assms by (simp add: insert_tab_def)
  with insert_tab_gaps_eq [OF a b assms(5)] show ?thesis by simp
qed

lemma gap_invariant_iff: "gap_invariant ts \<longleftrightarrow> roster_first ts \<and> \<not> is_GapTab (last ts)"
  by (auto simp: gap_invariant_def roster_first_def)

lemma insert_tab_gap_invariant:
  assumes "roster_first (tabs s)"
  shows "\<exists>r s'. insert_tab True s old_pos new_pos = (Inr r, s') \<and> roster_first (tabs s') \<and>
           (r \<longrightarrow> \<not> is_GapTab (last (tabs s'))) \<and> (\<not> r \<longrightarrow> s' = s)"
proof (cases "old_pos \<le> 0 \<or> old_pos \<ge> int (length (tabs s)) \<or> new_pos \<le> 0 \<or> new_pos = old_pos \<or>
     \<not> truthy (tabs s ! nat old_pos)")
  case True
  from insert_tab_refused [OF this] assms show ?thesis by auto
next
  case False
  then have g: "0 < old_pos" "old_pos < int (length (tabs s))" "0 < new_pos" "new_pos \<noteq> old_pos"
    "truthy (tabs s ! nat old_pos)" by auto
  let ?m = "moved_tabs (tabs s) (nat old_pos) (nat new_pos) (GapTab (next_ref s))"
  from g have "0 < nat old_pos" "nat old_pos < length (tabs s)" "0 < nat new_pos"
    by (simp_all add: nat_less_iff)
  from moved_tabs_first [OF this] assms have "roster_first ?m"
    by (simp add: roster_first_def)
  from strip_trailing_gaps_roster_first(1,2) [OF this] insert_tab_with_gaps [OF g]
  show ?thesis by auto
qed

lemma apply_tab_op_gap_invariant:
  assumes "gap_invariant (tabs s)"
  shows "\<exists>r s'. apply_tab_op True x s = Some (r, s') \<and> gap_invariant (tabs s')"
proof (cases x)
  case (InsertTab old_pos new_pos)
  from assms have rf: "roster_first (tabs s)" by (simp add: gap_invariant_iff)
  from insert_tab_gap_invariant [OF rf, of old_pos new_pos] obtain r s' where
    "insert_tab True s old_pos new_pos = (Inr r, s')" "roster_first (tabs s')"
    "r \<longrightarrow> \<not> is_GapTab (last (tabs s'))" "\<not> r \<longrightarrow> s' = s"
    by blast
  with assms InsertTab show ?thesis
    by (cases r) (auto simp: gap_invariant_iff)
next
  case (CloseTab arg)
  from assms have rf: "roster_first (tabs s)" by (simp add: gap_invariant_iff)
  from close_tab_result [OF rf, of True arg] assms CloseTab show ?thesis
    by (auto simp: gap_invariant_iff)
qed

text \<open>
  Claim C3. Gap mode is \<open>create_gaps = True\<close>. From a list of tabs whose slot 0 holds the
  roster tab and whose last slot holds no Gap, every sequence of \<open>insert_tab\<close> and
  \<open>close_tab\<close> calls, whatever their arguments, comes to an end (with or without an
  exception), and the list it leaves still has the roster tab in slot 0, so no Gap there,
  and no Gap in its last slot. As this holds for every sequence, it holds after each call
  of a sequence.
\<close>

theorem gap_invariant_preserved:
  assumes "gap_invariant (tabs s)"
  shows "\<exists>r s'. run_tab_ops True xs s = Some (r, s') \<and> gap_invariant (tabs s') \<and>
           \<not> is_GapTab (tabs s' ! 0) \<and> \<not> is_GapTab (last (tabs s'))"
  using assms
proof (induction xs arbitrary: s)
  case Nil
  then show ?case by (auto simp: gap_invariant_def roster_not_gap)
next
  case (Cons x xs)
  from apply_tab_op_gap_invariant [OF Cons.prems, of x] obtain r s1 where
    a: "apply_tab_op True x s = Some (r, s1)" and i: "gap_invariant (tabs s1)" by blast
  show ?case
  proof (cases r)
    case (Inl err)
    with a i show ?thesis by (auto simp: gap_invariant_def roster_not_gap)
  next
    case (Inr u)
    with a Cons.IH [OF i] show ?thesis by simp
  qed
qed

lemma remove_gap_right_eq:
  "remove_gap_right ts i =
     take (Suc i) ts @ takeWhile truthy (drop (Suc i) ts) @
       tl (dropWhile truthy (drop (Suc i) ts))"
proof (induction ts i rule: remove_gap_right.induct)
  case (1 ts i)
  show ?case
  proof (cases "Suc i \<ge> length ts")
    case True
    then show ?thesis by (subst remove_gap_right.simps) simp
  next
    case False
    then have lt: "Suc i < length ts" by simp
    then have d: "drop (Suc i) ts = ts ! Suc i # drop (Suc (Suc i)) ts"
      by (simp add: Cons_nth_drop_Suc)
    show ?thesis
    proof (cases "truthy (ts ! Suc i)")
      case True
      with False 1 have ih: "remove_gap_right ts (Suc i) =
          take (Suc (Suc i)) ts @ takeWhile truthy (drop (Suc (Suc i)) ts) @
            tl (dropWhile truthy (drop (Suc (Suc i)) ts))" by simp
      have "remove_gap_right ts i = remove_gap_right ts (Suc i)"
        using False True by (subst remove_gap_right.simps) simp
      with ih have "remove_gap_right ts i =
          take (Suc (Suc i)) ts @ takeWhile truthy (drop (Suc (Suc i)) ts) @
            tl (dropWhile truthy (drop (Suc (Suc i)) ts))" by simp
      moreover have "take (Suc (Suc i)) ts = take (Suc i) ts @ [ts ! Suc i]"
        using lt by (simp add: take_Suc_conv_app_nth)
      ultimately show ?thesis using True by (simp add: d)
    next
      case nt: False
      have "remove_gap_right ts i = list_pop ts (Suc i)"
        using False nt by (subst remove_gap_right.simps) simp
      then show ?thesis using nt by (simp add: d list_pop_def)
    qed
  qed
qed

lemma shifted_shape:
  assumes n: "n \<le> length xs"
    and g: "g = n + length (takeWhile P (drop n xs))"
    and m: "m = take n xs @ x # takeWhile P (drop n xs) @ tl (dropWhile P (drop n xs))"
  shows "g \<le> length xs"
    and "m = take n xs @ x # take (g - n) (drop n xs) @ drop (Suc g) xs"
    and "length m = (if g < length xs then length xs else Suc (length xs))"
    and "j < n \<Longrightarrow> m ! j = xs ! j"
    and "m ! n = x"
    and "n \<le> j \<Longrightarrow> j < g \<Longrightarrow> m ! Suc j = xs ! j \<and> P (xs ! j)"
    and "g < j \<Longrightarrow> j < length xs \<Longrightarrow> m ! j = xs ! j"
    and "g < length xs \<Longrightarrow> \<not> P (xs ! g)"
proof -
  let ?k = "length (takeWhile P (drop n xs))"
  have k: "?k \<le> length xs - n"
    using length_takeWhile_le [of P "drop n xs"] by simp
  with n show gl: "g \<le> length xs" by (simp add: g)
  have "takeWhile P (drop n xs) = take ?k (drop n xs)"
    by (rule takeWhile_eq_take)
  moreover have "g - n = ?k" by (simp add: g)
  ultimately have tw: "takeWhile P (drop n xs) = take (g - n) (drop n xs)"
    by (simp only:)
  have tld: "\<And>a. tl (drop a xs) = drop (Suc a) xs"
    by (simp only: drop_Suc tl_drop)
  have "dropWhile P (drop n xs) = drop ?k (drop n xs)"
    by (rule dropWhile_eq_drop)
  also have "\<dots> = drop g xs" by (simp add: g add.commute)
  finally have dw: "tl (dropWhile P (drop n xs)) = drop (Suc g) xs"
    by (simp only: tld)
  show me: "m = take n xs @ x # take (g - n) (drop n xs) @ drop (Suc g) xs"
    by (simp only: m tw dw)
  have ng: "n \<le> g" by (simp add: g)
  show "length m = (if g < length xs then length xs else Suc (length xs))"
    using n gl ng by (auto simp: me)
  show "j < n \<Longrightarrow> m ! j = xs ! j"
    using n by (simp add: me nth_append)
  show "m ! n = x"
    using n by (simp add: me nth_append)
  show "n \<le> j \<Longrightarrow> j < g \<Longrightarrow> m ! Suc j = xs ! j \<and> P (xs ! j)"
  proof -
    assume j: "n \<le> j" "j < g"
    then have jk: "j - n < ?k" by (simp add: g)
    have "takeWhile P (drop n xs) ! (j - n) = drop n xs ! (j - n)"
      using jk by (rule takeWhile_nth)
    moreover have "P (takeWhile P (drop n xs) ! (j - n))"
      using jk by (meson nth_mem set_takeWhileD)
    moreover have "drop n xs ! (j - n) = xs ! j"
      using j n gl by simp
    moreover have "m ! Suc j = takeWhile P (drop n xs) ! (j - n)"
      using j n jk by (simp add: m nth_append Suc_diff_le)
    ultimately show ?thesis by simp
  qed
  show "g < j \<Longrightarrow> j < length xs \<Longrightarrow> m ! j = xs ! j"
  proof -
    assume j: "g < j" "j < length xs"
    have l: "length (take n xs @ x # take (g - n) (drop n xs)) = Suc g"
      using n ng gl by simp
    have "m ! j = ((take n xs @ x # take (g - n) (drop n xs)) @ drop (Suc g) xs) ! j"
      by (simp add: me)
    also have "\<dots> = drop (Suc g) xs ! (j - Suc g)"
      using j by (simp only: nth_append l) simp
    also have "\<dots> = xs ! j" using j by simp
    finally show ?thesis .
  qed
  show "g < length xs \<Longrightarrow> \<not> P (xs ! g)"
  proof -
    assume "g < length xs"
    then have "?k < length (drop n xs)" by (simp add: g)
    then have "\<not> P (drop n xs ! ?k)" by (rule nth_length_takeWhile)
    moreover have "drop n xs ! ?k = xs ! g" using n by (simp add: g)
    ultimately show ?thesis by simp
  qed
qed

lemma moved_tabs_occupied_eq:
  assumes o: "o' < length ts" and no: "n \<noteq> o'" and tt: "truthy (ts ! o')" and d: "distinct ts"
    and g: "\<not> truthy gap" and n: "n < length ts" and tn: "truthy (ts ! n)"
  shows "moved_tabs ts o' n gap =
     take n (ts[o' := gap]) @ ts ! o' # takeWhile truthy (drop n (ts[o' := gap])) @
       tl (dropWhile truthy (drop n (ts[o' := gap])))"
proof -
  define ts1 where "ts1 = list_insert (ts[o' := gap]) n (ts ! o')"
  have l1: "length ts1 = Suc (length ts)" by (simp add: ts1_def)
  have below: "\<And>j. j < n \<Longrightarrow> ts1 ! j = (ts[o' := gap]) ! j"
    using n by (simp add: ts1_def nth_list_insert)
  have at: "ts1 ! n = ts ! o'"
    using n by (simp add: ts1_def nth_list_insert)
  have "\<forall>j < n. ts1 ! j \<noteq> ts ! o'"
  proof (intro allI impI)
    fix j assume jn: "j < n"
    show "ts1 ! j \<noteq> ts ! o'"
    proof (cases "j = o'")
      case True
      with below [OF jn] o have "ts1 ! j = gap" by simp
      with g tt show ?thesis by auto
    next
      case False
      with below [OF jn] have "ts1 ! j = ts ! j" by simp
      moreover have "ts ! j \<noteq> ts ! o'"
        using d False jn n o by (simp add: nth_eq_iff_index_eq)
      ultimately show ?thesis by simp
    qed
  qed
  with at l1 n have ix: "index_of ts1 (ts ! o') = n"
    by (intro index_of_first) simp_all
  have m_eq: "moved_tabs ts o' n gap = remove_gap_right ts1 n"
    using n tn by (simp add: moved_tabs_def Let_def ts1_def [symmetric] ix)
  have t: "take (Suc n) ts1 = take n (ts[o' := gap]) @ [ts ! o']"
    using n by (simp add: ts1_def list_insert_def)
  have dr: "drop (Suc n) ts1 = drop n (ts[o' := gap])"
    using n by (simp add: ts1_def list_insert_def)
  show ?thesis
    by (simp only: m_eq remove_gap_right_eq [of ts1 n] t dr) simp
qed

lemma strip_trailing_gaps_id:
  "xs \<noteq> [] \<Longrightarrow> \<not> is_GapTab (last xs) \<Longrightarrow> strip_trailing_gaps xs = xs"
  by (cases xs rule: rev_cases) (simp_all add: strip_trailing_gaps_def)

lemma moved_tabs_shape:
  assumes o: "o' < length ts" and no: "n \<noteq> o'" and tt: "truthy (ts ! o')" and d: "distinct ts"
    and fg: "\<not> truthy gap"
    and ts0: "ts0 = ts[o' := gap]"
    and g: "g = n + length (takeWhile truthy (drop n ts0))"
    and m: "m = (if n \<ge> length ts then ts0 @ [ts ! o']
                 else if \<not> truthy (ts ! n) then ts0[n := ts ! o']
                 else take n ts0 @ ts ! o' # takeWhile truthy (drop n ts0) @
                        tl (dropWhile truthy (drop n ts0)))"
  shows "moved_tabs ts o' n gap = m"
    and "min n (length ts) < length m \<and> m ! min n (length ts) = ts ! o'"
    and "j < length ts \<Longrightarrow> j \<noteq> o' \<Longrightarrow> truthy (ts ! j) \<Longrightarrow>
         (if n < length ts \<and> truthy (ts ! n) \<and> n \<le> j \<and> j < g
          then Suc j < length m \<and> m ! Suc j = ts ! j
          else j < length m \<and> m ! j = ts ! j)"
    and "o' < n \<or> (n < o' \<and> \<not> (truthy (ts ! n) \<and> g = o')) \<Longrightarrow>
         o' < length m \<and> m ! o' = gap"
    and "length m \<le> Suc (length ts)"
proof -
  consider (past) "n \<ge> length ts"
    | (free) "n < length ts" "\<not> truthy (ts ! n)"
    | (occupied) "n < length ts" "truthy (ts ! n)"
    by linarith
  then have all: "moved_tabs ts o' n gap = m \<and>
     (min n (length ts) < length m \<and> m ! min n (length ts) = ts ! o') \<and>
     (\<forall>j. j < length ts \<longrightarrow> j \<noteq> o' \<longrightarrow> truthy (ts ! j) \<longrightarrow>
         (if n < length ts \<and> truthy (ts ! n) \<and> n \<le> j \<and> j < g
          then Suc j < length m \<and> m ! Suc j = ts ! j
          else j < length m \<and> m ! j = ts ! j)) \<and>
     (o' < n \<or> (n < o' \<and> \<not> (truthy (ts ! n) \<and> g = o')) \<longrightarrow> o' < length m \<and> m ! o' = gap) \<and>
     length m \<le> Suc (length ts)"
  proof cases
    case past
    then have me: "m = ts0 @ [ts ! o']" by (simp add: m)
    have l0: "length ts0 = length ts" by (simp add: ts0)
    have 1: "moved_tabs ts o' n gap = m"
      using past o by (simp add: moved_tabs_def Let_def me ts0 list_update_append)
    have 2: "min n (length ts) < length m \<and> m ! min n (length ts) = ts ! o'"
      using past by (simp add: me l0 min_def nth_append)
    have 3: "\<forall>j. j < length ts \<longrightarrow> j \<noteq> o' \<longrightarrow> truthy (ts ! j) \<longrightarrow>
         (if n < length ts \<and> truthy (ts ! n) \<and> n \<le> j \<and> j < g
          then Suc j < length m \<and> m ! Suc j = ts ! j
          else j < length m \<and> m ! j = ts ! j)"
      using past by (simp add: me l0 nth_append ts0)
    have 4: "o' < n \<or> (n < o' \<and> \<not> (truthy (ts ! n) \<and> g = o')) \<longrightarrow>
        o' < length m \<and> m ! o' = gap"
      using o by (simp add: me l0 nth_append) (simp add: ts0)
    have 5: "length m \<le> Suc (length ts)" by (simp add: me l0)
    from 1 2 3 4 5 show ?thesis by blast
  next
    case free
    then have me: "m = ts0[n := ts ! o']" by (simp add: m)
    have l0: "length ts0 = length ts" by (simp add: ts0)
    have 1: "moved_tabs ts o' n gap = m"
      using free no by (simp add: moved_tabs_def Let_def me ts0 list_update_swap)
    have 2: "min n (length ts) < length m \<and> m ! min n (length ts) = ts ! o'"
      using free by (simp add: me l0 min_def)
    have 3: "\<forall>j. j < length ts \<longrightarrow> j \<noteq> o' \<longrightarrow> truthy (ts ! j) \<longrightarrow>
         (if n < length ts \<and> truthy (ts ! n) \<and> n \<le> j \<and> j < g
          then Suc j < length m \<and> m ! Suc j = ts ! j
          else j < length m \<and> m ! j = ts ! j)"
    proof (intro allI impI)
      fix j assume j: "j < length ts" "j \<noteq> o'" "truthy (ts ! j)"
      with free have "j \<noteq> n" by auto
      with j free show "if n < length ts \<and> truthy (ts ! n) \<and> n \<le> j \<and> j < g
          then Suc j < length m \<and> m ! Suc j = ts ! j
          else j < length m \<and> m ! j = ts ! j"
        by (simp add: me l0 ts0)
    qed
    have 4: "o' < n \<or> (n < o' \<and> \<not> (truthy (ts ! n) \<and> g = o')) \<longrightarrow>
        o' < length m \<and> m ! o' = gap"
      using o no by (simp add: me l0) (simp add: ts0)
    have 5: "length m \<le> Suc (length ts)" by (simp add: me l0)
    from 1 2 3 4 5 show ?thesis by blast
  next
    case occupied
    then have me: "m = take n ts0 @ ts ! o' # takeWhile truthy (drop n ts0) @
                        tl (dropWhile truthy (drop n ts0))" by (simp add: m)
    have l0: "length ts0 = length ts" by (simp add: ts0)
    have n0: "n \<le> length ts0" using occupied by (simp add: l0)
    note sh = shifted_shape [OF n0 g me]
    have z: "\<And>j. j < length ts \<Longrightarrow> j \<noteq> o' \<Longrightarrow> ts0 ! j = ts ! j" by (simp add: ts0)
    have zo: "ts0 ! o' = gap" using o by (simp add: ts0)
    have lm: "length ts \<le> length m" "length m \<le> Suc (length ts)"
      using sh(3) by (simp_all add: l0 split: if_splits)
    have 1: "moved_tabs ts o' n gap = m"
      using moved_tabs_occupied_eq [OF o no tt d fg occupied] by (simp add: me ts0)
    have 2: "min n (length ts) < length m \<and> m ! min n (length ts) = ts ! o'"
      using occupied lm sh(5) by (simp add: min_def)
    have 3: "\<forall>j. j < length ts \<longrightarrow> j \<noteq> o' \<longrightarrow> truthy (ts ! j) \<longrightarrow>
         (if n < length ts \<and> truthy (ts ! n) \<and> n \<le> j \<and> j < g
          then Suc j < length m \<and> m ! Suc j = ts ! j
          else j < length m \<and> m ! j = ts ! j)"
    proof (intro allI impI)
      fix j assume j: "j < length ts" "j \<noteq> o'" "truthy (ts ! j)"
      show "if n < length ts \<and> truthy (ts ! n) \<and> n \<le> j \<and> j < g
          then Suc j < length m \<and> m ! Suc j = ts ! j
          else j < length m \<and> m ! j = ts ! j"
      proof (cases "n \<le> j \<and> j < g")
        case True
        then have a: "m ! Suc j = ts0 ! j" using sh(6) [of j] by simp
        have "Suc j < length m"
          using True sh(1) sh(3) by (simp add: l0 split: if_splits)
        with a z [OF j(1,2)] True occupied show ?thesis by simp
      next
        case False
        have "m ! j = ts0 ! j"
        proof (cases "j < n")
          case True
          then show ?thesis by (rule sh(4))
        next
          case jn: False
          with False have gj: "g \<le> j" by simp
          have "g \<noteq> j"
          proof
            assume e: "g = j"
            with j(1) have "g < length ts0" by (simp add: l0)
            from sh(8) [OF this] e z [OF j(1,2)] j(3) show False by simp
          qed
          with gj have "g < j" by simp
          then show ?thesis using j(1) by (intro sh(7)) (simp_all add: l0)
        qed
        with z [OF j(1,2)] j(1) lm(1) False show ?thesis by auto
      qed
    qed
    have 4: "o' < n \<or> (n < o' \<and> \<not> (truthy (ts ! n) \<and> g = o')) \<longrightarrow>
        o' < length m \<and> m ! o' = gap"
    proof
      assume a: "o' < n \<or> (n < o' \<and> \<not> (truthy (ts ! n) \<and> g = o'))"
      have "m ! o' = ts0 ! o'"
      proof (cases "o' < n")
        case True
        then show ?thesis by (rule sh(4))
      next
        case False
        with a occupied have b: "n < o'" "g \<noteq> o'" by auto
        have "\<not> o' < g"
        proof
          assume "o' < g"
          with b(1) sh(6) [of o'] have "truthy (ts0 ! o')" by simp
          with zo fg show False by simp
        qed
        with b(2) have "g < o'" by simp
        then show ?thesis using o by (intro sh(7)) (simp_all add: l0)
      qed
      with zo o lm(1) show "o' < length m \<and> m ! o' = gap" by simp
    qed
    from 1 2 3 4 lm(2) show ?thesis by blast
  qed
  from all show "moved_tabs ts o' n gap = m" by blast
  from all show "min n (length ts) < length m \<and> m ! min n (length ts) = ts ! o'" by blast
  from all show "j < length ts \<Longrightarrow> j \<noteq> o' \<Longrightarrow> truthy (ts ! j) \<Longrightarrow>
         (if n < length ts \<and> truthy (ts ! n) \<and> n \<le> j \<and> j < g
          then Suc j < length m \<and> m ! Suc j = ts ! j
          else j < length m \<and> m ! j = ts ! j)" by blast
  from all show "o' < n \<or> (n < o' \<and> \<not> (truthy (ts ! n) \<and> g = o')) \<Longrightarrow>
         o' < length m \<and> m ! o' = gap" by blast
  from all show "length m \<le> Suc (length ts)" by blast
qed

lemma remove1_snoc_member: "x \<in> set xs \<Longrightarrow> remove1 x (xs @ [x]) = remove1 x xs @ [x]"
  by (simp add: remove1_append)

text \<open>
  Claim C5, amended. \<open>insert_tab\<close>, in both modes, returns \<open>False\<close> and leaves the state as it
  was when \<open>old_pos\<close> is outside \<open>[1, len)\<close>, when \<open>new_pos \<le> 0\<close>, when \<open>new_pos = old_pos\<close>
  or when the slot \<open>old_pos\<close> holds a Gap. A \<open>new_pos\<close> greater than or equal to the length of
  the list is not refused: for an \<open>old_pos\<close> in \<open>[1, len)\<close> whose slot holds a tab, \<open>insert_tab\<close>
  returns \<open>True\<close> and the tab becomes the last one of the list. In gap mode a new Gap takes
  its old slot and the other tabs keep their slots; without gaps the tab leaves its old
  slot (\<open>list.remove\<close>) and the tabs that followed it move down by one.
\<close>

theorem insert_tab_refusals:
  "(old_pos \<le> 0 \<or> old_pos \<ge> int (length (tabs s)) \<or> new_pos \<le> 0 \<or> new_pos = old_pos \<or>
      \<not> truthy (tabs s ! nat old_pos) \<longrightarrow>
      insert_tab g s old_pos new_pos = (Inr False, s)) \<and>
   (0 < old_pos \<and> old_pos < int (length (tabs s)) \<and> truthy (tabs s ! nat old_pos) \<and>
      new_pos \<ge> int (length (tabs s)) \<longrightarrow>
      insert_tab True s old_pos new_pos =
        (Inr True,
         s\<lparr>next_ref := Suc (next_ref s),
           tabs := (tabs s)[nat old_pos := GapTab (next_ref s)] @ [tabs s ! nat old_pos]\<rparr>) \<and>
      insert_tab False s old_pos new_pos =
        (Inr True, s\<lparr>tabs := remove1 (tabs s ! nat old_pos) (tabs s) @ [tabs s ! nat old_pos]\<rparr>))"
proof (intro conjI impI)
  assume "old_pos \<le> 0 \<or> old_pos \<ge> int (length (tabs s)) \<or> new_pos \<le> 0 \<or> new_pos = old_pos \<or>
      \<not> truthy (tabs s ! nat old_pos)"
  then show "insert_tab g s old_pos new_pos = (Inr False, s)" by (rule insert_tab_refused)
next
  assume a: "0 < old_pos \<and> old_pos < int (length (tabs s)) \<and> truthy (tabs s ! nat old_pos) \<and>
      new_pos \<ge> int (length (tabs s))"
  then have g: "0 < old_pos" "old_pos < int (length (tabs s))" "0 < new_pos"
    "new_pos \<noteq> old_pos" "truthy (tabs s ! nat old_pos)" by auto
  have o: "nat old_pos < length (tabs s)" using g by (simp add: nat_less_iff)
  have n: "length (tabs s) \<le> nat new_pos" using a by linarith
  let ?m = "(tabs s)[nat old_pos := GapTab (next_ref s)] @ [tabs s ! nat old_pos]"
  have "moved_tabs (tabs s) (nat old_pos) (nat new_pos) (GapTab (next_ref s)) = ?m"
    using o n by (simp add: moved_tabs_def Let_def list_update_append)
  moreover have "strip_trailing_gaps ?m = ?m"
    using g(5) by (intro strip_trailing_gaps_id) (simp_all add: truthy_def)
  ultimately show "insert_tab True s old_pos new_pos =
        (Inr True,
         s\<lparr>next_ref := Suc (next_ref s),
           tabs := (tabs s)[nat old_pos := GapTab (next_ref s)] @ [tabs s ! nat old_pos]\<rparr>)"
    using insert_tab_with_gaps [OF g] by simp
next
  assume a: "0 < old_pos \<and> old_pos < int (length (tabs s)) \<and> truthy (tabs s ! nat old_pos) \<and>
      new_pos \<ge> int (length (tabs s))"
  then have g: "0 < old_pos" "old_pos < int (length (tabs s))" "0 < new_pos"
    "new_pos \<noteq> old_pos" "truthy (tabs s ! nat old_pos)" by auto
  have o: "nat old_pos < length (tabs s)" using g by (simp add: nat_less_iff)
  have n: "length (tabs s) \<le> nat new_pos" using a by linarith
  have mem: "tabs s ! nat old_pos \<in> set (tabs s)" using o by simp
  have "insert_tab False s old_pos new_pos = insert_tab_nogaps s (nat old_pos) (nat new_pos)"
    using g by (simp add: insert_tab_def)
  also have "\<dots> = (Inr True,
      s\<lparr>tabs := remove1 (tabs s ! nat old_pos) (tabs s @ [tabs s ! nat old_pos])\<rparr>)"
  proof -
    from o n have lt: "nat old_pos < nat new_pos" by linarith
    then have nl: "\<not> nat new_pos < nat old_pos" by linarith
    from a have on: "old_pos < new_pos" by linarith
    show ?thesis
      using o n lt nl on g(3) by (simp add: insert_tab_nogaps_def Let_def list_insert_def)
  qed
  finally show "insert_tab False s old_pos new_pos =
        (Inr True, s\<lparr>tabs := remove1 (tabs s ! nat old_pos) (tabs s) @ [tabs s ! nat old_pos]\<rparr>)"
    using mem by (simp only: remove1_snoc_member)
qed

text \<open>
  Claim C7, amended. On a list of tabs whose slot 0 holds a tab that is not a Gap:
  an assignment to \<open>current_tab_nb\<close> leaves the list as it is and the index in
  \<open>[0, len)\<close>: 0 for a value \<open>\<ge> len\<close>, \<open>len - 1\<close> for a negative value, the value itself
  otherwise, whatever the slot holds; \<open>rotate_rooms_right\<close> and \<open>rotate_rooms_left\<close> return
  and leave the cursor on a tab that is not a Gap; and \<open>close_tab\<close>, when slot 0 holds the
  roster tab and the cursor is on a tab that is not a Gap, comes to an end and leaves the
  cursor on a tab that is not a Gap.
\<close>

theorem focus_cursor_invariant:
  assumes "tabs s \<noteq> []" and "truthy (tabs s ! 0)"
  shows "0 \<le> current_tab_nb (set_current_tab_nb s v) \<and>
         current_tab_nb (set_current_tab_nb s v) < int (length (tabs s)) \<and>
         tabs (set_current_tab_nb s v) = tabs s \<and>
         current_tab_nb (set_current_tab_nb s v) =
           (if v \<ge> int (length (tabs s)) then 0 else if v < 0 then int (length (tabs s)) - 1 else v) \<and>
         (\<exists>s'. rotate_rooms_right s = Some (Inr (), s') \<and> tabs s' = tabs s \<and> focus_ok s') \<and>
         (\<exists>s'. rotate_rooms_left s = Some (Inr (), s') \<and> tabs s' = tabs s \<and> focus_ok s') \<and>
         (is_RosterInfoTab (tabs s ! 0) \<and> focus_ok s \<longrightarrow>
            (\<exists>r s'. close_tab g s arg = Some (r, s') \<and> focus_ok s'))"
proof -
  have 1: "0 \<le> current_tab_nb (set_current_tab_nb s v) \<and>
         current_tab_nb (set_current_tab_nb s v) < int (length (tabs s))"
    using wrap_tab_nb_in_range [OF assms(1), of v] by (simp add: set_current_tab_nb_def)
  have 2: "tabs (set_current_tab_nb s v) = tabs s"
    by (simp add: set_current_tab_nb_def)
  have 3: "current_tab_nb (set_current_tab_nb s v) =
           (if v \<ge> int (length (tabs s)) then 0 else if v < 0 then int (length (tabs s)) - 1 else v)"
    by (simp add: set_current_tab_nb_def wrap_tab_nb_def)
  from rotate_rooms_right_ok [OF assms]
  have 4: "\<exists>s'. rotate_rooms_right s = Some (Inr (), s') \<and> tabs s' = tabs s \<and> focus_ok s'"
    by force
  from rotate_rooms_left_ok [OF assms]
  have 5: "\<exists>s'. rotate_rooms_left s = Some (Inr (), s') \<and> tabs s' = tabs s \<and> focus_ok s'"
    by force
  have 6: "is_RosterInfoTab (tabs s ! 0) \<and> focus_ok s \<longrightarrow>
            (\<exists>r s'. close_tab g s arg = Some (r, s') \<and> focus_ok s')"
  proof
    assume a: "is_RosterInfoTab (tabs s ! 0) \<and> focus_ok s"
    with assms(1) have "roster_first (tabs s)" by (simp add: roster_first_def)
    from close_tab_result [OF this, of g arg] a
    show "\<exists>r s'. close_tab g s arg = Some (r, s') \<and> focus_ok s'" by blast
  qed
  from 1 2 3 4 5 6 show ?thesis by blast
qed

lemma strip_trailing_gaps_truthy:
  assumes "k < length m" "truthy (m ! k)"
  shows "k < length (strip_trailing_gaps m) \<and> strip_trailing_gaps m ! k = m ! k"
proof -
  from assms have "k < length (strip_trailing_gaps m)"
    by (simp add: strip_trailing_gaps_keeps truthy_def)
  then show ?thesis by (simp add: strip_trailing_gaps_nth)
qed

text \<open>
  Claim C4, amended. Let \<open>insert_tab\<close> be called in gap mode on a list of distinct tabs,
  of length \<open>len\<close>, with a move that it does not refuse. It returns \<open>True\<close>, and the list
  it leaves is the following one without its trailing Gaps: the old list with a new Gap in
  the slot \<open>old_pos\<close> and

    \<^item> when \<open>new_pos \<ge> len\<close>, the tab appended;
    \<^item> when the slot \<open>new_pos\<close> holds a Gap, the tab in the place of this Gap;
    \<^item> otherwise the tab inserted at \<open>new_pos\<close>, then the tabs of the slots \<open>new_pos\<close> to
      \<open>g - 1\<close>, then what followed the slot \<open>g\<close>, where \<open>g\<close> is the slot of the first Gap at or
      after \<open>new_pos\<close>, the new Gap included; this Gap is removed, and when there is none
      (\<open>g = len\<close>) nothing is removed.

  So the moved tab has the number \<open>new_pos\<close>, or \<open>len\<close> when \<open>new_pos \<ge> len\<close>. A tab other than
  the moved one and other than a Gap has its number raised by one when the slot \<open>new_pos\<close>
  held a tab and it was in one of the slots \<open>new_pos\<close> to \<open>g - 1\<close>; it keeps its number in
  every other case, so before \<open>new_pos\<close>, after the removed Gap, and everywhere when the
  slot \<open>new_pos\<close> was free. The slot \<open>old_pos\<close> holds the new Gap when \<open>old_pos < new_pos\<close>; when
  \<open>new_pos < old_pos\<close> it holds it unless this Gap is the one removed (\<open>g = old_pos\<close>) or a
  trailing one. The list is at most one slot longer than before.
\<close>

theorem insert_tab_gaps_numbering:
  assumes d: "distinct (tabs s)"
    and g1: "0 < old_pos" and g2: "old_pos < int (length (tabs s))" and g3: "0 < new_pos"
    and g4: "new_pos \<noteq> old_pos" and g5: "truthy (tabs s ! nat old_pos)"
  shows
    "(let ts = tabs s; o' = nat old_pos; n = nat new_pos; tab = ts ! o';
          gap = GapTab (next_ref s);
          ts0 = ts[o' := gap];
          g = n + length (takeWhile truthy (drop n ts0));
          r = strip_trailing_gaps
                (if n \<ge> length ts then ts0 @ [tab]
                 else if \<not> truthy (ts ! n) then ts0[n := tab]
                 else take n ts0 @ tab # takeWhile truthy (drop n ts0) @
                        tl (dropWhile truthy (drop n ts0)))
      in insert_tab True s old_pos new_pos =
           (Inr True, s\<lparr>next_ref := Suc (next_ref s), tabs := r\<rparr>) \<and>
         min n (length ts) < length r \<and> r ! min n (length ts) = tab \<and>
         (\<forall>j < length ts. j \<noteq> o' \<and> truthy (ts ! j) \<longrightarrow>
            (if n < length ts \<and> truthy (ts ! n) \<and> n \<le> j \<and> j < g
             then Suc j < length r \<and> r ! Suc j = ts ! j
             else j < length r \<and> r ! j = ts ! j)) \<and>
         (o' < n \<longrightarrow> o' < length r \<and> r ! o' = gap) \<and>
         (n < o' \<and> o' < length r \<and> \<not> (truthy (ts ! n) \<and> g = o') \<longrightarrow> r ! o' = gap) \<and>
         length r \<le> Suc (length ts))"
proof -
  define ts where "ts = tabs s"
  define o' where "o' = nat old_pos"
  define n where "n = nat new_pos"
  define gap where "gap = GapTab (next_ref s)"
  define ts0 where "ts0 = ts[o' := gap]"
  define g where "g = n + length (takeWhile truthy (drop n ts0))"
  define m where "m = (if n \<ge> length ts then ts0 @ [ts ! o']
                 else if \<not> truthy (ts ! n) then ts0[n := ts ! o']
                 else take n ts0 @ ts ! o' # takeWhile truthy (drop n ts0) @
                        tl (dropWhile truthy (drop n ts0)))"
  define r where "r = strip_trailing_gaps m"
  have o: "o' < length ts" using g1 g2 by (simp add: o'_def ts_def nat_less_iff)
  have no: "n \<noteq> o'" using g1 g3 g4 by (simp add: o'_def n_def)
  have tt: "truthy (ts ! o')" using g5 by (simp add: o'_def ts_def)
  have dd: "distinct ts" using d by (simp add: ts_def)
  have fg: "\<not> truthy gap" by (simp add: gap_def truthy_def)
  note sh = moved_tabs_shape [OF o no tt dd fg ts0_def g_def m_def]
  note K = strip_trailing_gaps_truthy [of _ m]
  have 1: "insert_tab True s old_pos new_pos =
           (Inr True, s\<lparr>next_ref := Suc (next_ref s), tabs := r\<rparr>)"
    using insert_tab_with_gaps [OF g1 g2 g3 g4 g5] sh(1)
    by (simp add: r_def ts_def o'_def n_def gap_def)
  have 2: "min n (length ts) < length r \<and> r ! min n (length ts) = ts ! o'"
    using sh(2) tt K [of "min n (length ts)"] by (simp add: r_def)
  have 3: "\<forall>j < length ts. j \<noteq> o' \<and> truthy (ts ! j) \<longrightarrow>
            (if n < length ts \<and> truthy (ts ! n) \<and> n \<le> j \<and> j < g
             then Suc j < length r \<and> r ! Suc j = ts ! j
             else j < length r \<and> r ! j = ts ! j)"
  proof (intro allI impI)
    fix j assume a: "j < length ts" "j \<noteq> o' \<and> truthy (ts ! j)"
    then have j: "j < length ts" "j \<noteq> o'" "truthy (ts ! j)" by simp_all
    show "if n < length ts \<and> truthy (ts ! n) \<and> n \<le> j \<and> j < g
             then Suc j < length r \<and> r ! Suc j = ts ! j
             else j < length r \<and> r ! j = ts ! j"
    proof (cases "n < length ts \<and> truthy (ts ! n) \<and> n \<le> j \<and> j < g")
      case True
      with sh(3) [OF j] have "Suc j < length m \<and> m ! Suc j = ts ! j" by simp
      with K [of "Suc j"] j(3) True show ?thesis by (simp add: r_def)
    next
      case False
      with sh(3) [OF j] have "j < length m \<and> m ! j = ts ! j" by simp
      with K [of j] j(3) False show ?thesis by (auto simp: r_def)
    qed
  qed
  have 4: "o' < n \<longrightarrow> o' < length r \<and> r ! o' = gap"
  proof
    assume a: "o' < n"
    with o have "o' < min n (length ts)" by simp
    moreover from 2 have "min n (length ts) < length r" by simp
    ultimately have l: "o' < length r" by (rule less_trans)
    then have "r ! o' = m ! o'" unfolding r_def by (rule strip_trailing_gaps_nth)
    with sh(4) a l show "o' < length r \<and> r ! o' = gap" by simp
  qed
  have 5: "n < o' \<and> o' < length r \<and> \<not> (truthy (ts ! n) \<and> g = o') \<longrightarrow> r ! o' = gap"
  proof
    assume a: "n < o' \<and> o' < length r \<and> \<not> (truthy (ts ! n) \<and> g = o')"
    then have "r ! o' = m ! o'" unfolding r_def by (simp add: strip_trailing_gaps_nth)
    with sh(4) a show "r ! o' = gap" by simp
  qed
  have 6: "length r \<le> Suc (length ts)"
    using sh(5) strip_trailing_gaps_length [of m] by (simp add: r_def)
  from 1 2 3 4 5 6 have C:
    "insert_tab True s old_pos new_pos =
           (Inr True, s\<lparr>next_ref := Suc (next_ref s), tabs := r\<rparr>) \<and>
         min n (length ts) < length r \<and> r ! min n (length ts) = ts ! o' \<and>
         (\<forall>j < length ts. j \<noteq> o' \<and> truthy (ts ! j) \<longrightarrow>
            (if n < length ts \<and> truthy (ts ! n) \<and> n \<le> j \<and> j < g
             then Suc j < length r \<and> r ! Suc j = ts ! j
             else j < length r \<and> r ! j = ts ! j)) \<and>
         (o' < n \<longrightarrow> o' < length r \<and> r ! o' = gap) \<and>
         (n < o' \<and> o' < length r \<and> \<not> (truthy (ts ! n) \<and> g = o') \<longrightarrow> r ! o' = gap) \<and>
         length r \<le> Suc (length ts)"
    by blast
  show ?thesis
    unfolding Let_def
    using C unfolding r_def m_def g_def ts0_def gap_def n_def o'_def ts_def .
qed

subsection \<open>The claims on examples\<close>

lemma example_core_moved:
  "insert_tab True example_core 1 3 =
     (Inr True,
      \<lparr>tabs = [RosterInfoTab 0, GapTab 4, OtherTab 2, OtherTab 1, OtherTab 3],
       current_tab_nb = 0, next_ref = 5\<rparr>)"
  by (simp add: insert_tab_def insert_tab_gaps_def new_GapTab_def trim_and_return_def
      list_insert_def list_pop_def remove_gap_right.simps pop_trailing_gaps.simps py_get_def
      truthy_def example_core_def Let_def)

lemma example_core_moved_past_end:
  "insert_tab True example_core 1 4 =
     (Inr True,
      \<lparr>tabs = [RosterInfoTab 0, GapTab 4, OtherTab 2, OtherTab 3, OtherTab 1],
       current_tab_nb = 0, next_ref = 5\<rparr>)"
  by (simp add: insert_tab_def insert_tab_gaps_def new_GapTab_def trim_and_return_def
      list_insert_def list_pop_def remove_gap_right.simps pop_trailing_gaps.simps py_get_def
      truthy_def example_core_def Let_def)

lemma example_core_moved_nogaps:
  "insert_tab False example_core 1 99999 =
     (Inr True,
      \<lparr>tabs = [RosterInfoTab 0, OtherTab 2, OtherTab 3, OtherTab 1],
       current_tab_nb = 0, next_ref = 4\<rparr>)"
  by (simp add: insert_tab_def insert_tab_nogaps_def list_insert_def truthy_def
      example_core_def Let_def)

text \<open>
  Claim C3 on an example: \<open>A\<close> is moved to the slot of \<open>C\<close>, then \<open>C\<close>, which is in the last
  slot, and the current tab are closed.
\<close>

theorem gap_invariant_preserved_witness:
  "gap_invariant (tabs example_core) \<and>
   (\<exists>r s'. run_tab_ops True [InsertTab 1 3, CloseTab (Some (OtherTab 3)), CloseTab None]
              example_core = Some (r, s') \<and>
            gap_invariant (tabs s') \<and> \<not> is_GapTab (tabs s' ! 0) \<and> \<not> is_GapTab (last (tabs s')))"
proof -
  have h: "gap_invariant (tabs example_core)"
    by (simp add: gap_invariant_def example_core_def)
  from gap_invariant_preserved [OF h] h show ?thesis by blast
qed

text \<open>
  Claim C4 as the specification states it fails on its own example: on
  \<open>[Roster, A, B, C]\<close>, \<open>insert_tab(1, 3)\<close> in gap mode gives \<open>[Roster, Gap, B, A, C]\<close>, where
  \<open>C\<close> has the number 4 and no longer 3.
\<close>

theorem insert_tab_gaps_shifts_next_tab:
  "insert_tab True example_core 1 3 =
     (Inr True,
      \<lparr>tabs = [RosterInfoTab 0, GapTab 4, OtherTab 2, OtherTab 1, OtherTab 3],
       current_tab_nb = 0, next_ref = 5\<rparr>) \<and>
   tab_nb (tabs example_core) (OtherTab 3) = 3 \<and>
   tab_nb (tabs (snd (insert_tab True example_core 1 3))) (OtherTab 3) = 4"
  by (simp add: example_core_moved) (simp add: example_core_def tab_nb_def)

text \<open>
  Claim C4, amended, on two examples. On \<open>[Roster, A, B, C]\<close>, \<open>insert_tab(1, 3)\<close> finds no
  Gap after \<open>C\<close>: \<open>B\<close> keeps its number and \<open>C\<close> has the next one. On
  \<open>[Roster, T1, T2, Gap, T4]\<close>, \<open>insert_tab(1, 2)\<close> removes the Gap of slot 3: \<open>T2\<close> has the
  number 3 and \<open>T4\<close> keeps the number 4.
\<close>

theorem insert_tab_gaps_numbering_witness:
  "insert_tab True example_core 1 3 =
     (Inr True,
      \<lparr>tabs = [RosterInfoTab 0, GapTab 4, OtherTab 2, OtherTab 1, OtherTab 3],
       current_tab_nb = 0, next_ref = 5\<rparr>) \<and>
   insert_tab True example_core_absorb 1 2 =
     (Inr True,
      \<lparr>tabs = [RosterInfoTab 0, GapTab 5, OtherTab 1, OtherTab 2, OtherTab 4],
       current_tab_nb = 0, next_ref = 6\<rparr>)"
  using insert_tab_gaps_numbering [where s = example_core and old_pos = 1 and new_pos = 3]
    insert_tab_gaps_numbering [where s = example_core_absorb and old_pos = 1 and new_pos = 2]
  by (simp add: example_core_def example_core_absorb_def truthy_def Let_def
      strip_trailing_gaps_def)

text \<open>
  Claim C5 as the specification states it fails for \<open>new_pos \<ge> len\<close>: on \<open>[Roster, A, B, C]\<close>,
  \<open>insert_tab(1, 4)\<close> in gap mode and \<open>insert_tab(1)\<close>, whose \<open>new_pos\<close> is 99999, without gaps
  return \<open>True\<close> and move \<open>A\<close> to the end of the list.
\<close>

theorem insert_tab_past_end_moves:
  "int (length (tabs example_core)) \<le> 4 \<and>
   insert_tab True example_core 1 4 =
     (Inr True,
      \<lparr>tabs = [RosterInfoTab 0, GapTab 4, OtherTab 2, OtherTab 3, OtherTab 1],
       current_tab_nb = 0, next_ref = 5\<rparr>) \<and>
   insert_tab False example_core 1 99999 =
     (Inr True,
      \<lparr>tabs = [RosterInfoTab 0, OtherTab 2, OtherTab 3, OtherTab 1],
       current_tab_nb = 0, next_ref = 4\<rparr>)"
  by (simp add: example_core_moved_past_end example_core_moved_nogaps)
    (simp add: example_core_def)

text \<open>
  Claim C5, amended, on examples: a move to the same slot and a move from a slot past the
  end are refused, a move to a slot past the end is not.
\<close>

theorem insert_tab_refusals_witness:
  "insert_tab True example_core 1 1 = (Inr False, example_core) \<and>
   insert_tab False example_core 4 1 = (Inr False, example_core) \<and>
   insert_tab True example_core 1 4 =
     (Inr True,
      \<lparr>tabs = [RosterInfoTab 0, GapTab 4, OtherTab 2, OtherTab 3, OtherTab 1],
       current_tab_nb = 0, next_ref = 5\<rparr>) \<and>
   insert_tab False example_core 1 99999 =
     (Inr True,
      \<lparr>tabs = [RosterInfoTab 0, OtherTab 2, OtherTab 3, OtherTab 1],
       current_tab_nb = 0, next_ref = 4\<rparr>)"
  using insert_tab_refusals [where old_pos = 1 and new_pos = 1 and s = example_core and g = True]
    insert_tab_refusals [where old_pos = 4 and new_pos = 1 and s = example_core and g = False]
    insert_tab_refusals [where old_pos = 1 and new_pos = 4 and s = example_core and g = True]
    insert_tab_refusals [where old_pos = 1 and new_pos = 99999 and s = example_core and g = True]
  by (simp add: example_core_def truthy_def)

text \<open>
  Claim C7 as the specification states it fails for the assignment: on \<open>[Roster, Gap, A]\<close>,
  whose slot 0 holds a tab that is not a Gap, the assignment of 1 to \<open>current_tab_nb\<close> leaves the
  cursor on the Gap.
\<close>

theorem set_current_tab_nb_on_gap:
  "truthy (tabs example_core_gap ! 0) \<and>
   current_tab_nb (set_current_tab_nb example_core_gap 1) = 1 \<and>
   is_GapTab (tabs (set_current_tab_nb example_core_gap 1) ! 1) \<and>
   \<not> focus_ok (set_current_tab_nb example_core_gap 1)"
  by (simp add: example_core_gap_def set_current_tab_nb_def wrap_tab_nb_def truthy_def
      focus_ok_def)

text \<open>Claim C7, amended, on examples.\<close>

theorem focus_cursor_invariant_witness:
  "current_tab_nb (set_current_tab_nb example_core 7) = 0 \<and>
   current_tab_nb (set_current_tab_nb example_core (- 1)) = 3 \<and>
   (\<exists>s'. rotate_rooms_right example_core_gap = Some (Inr (), s') \<and> focus_ok s') \<and>
   (\<exists>s'. rotate_rooms_left example_core_gap = Some (Inr (), s') \<and> focus_ok s') \<and>
   (\<exists>r s'. close_tab True example_core (Some (OtherTab 1)) = Some (r, s') \<and> focus_ok s')"
proof -
  have a: "tabs example_core \<noteq> []" "truthy (tabs example_core ! 0)"
    "is_RosterInfoTab (tabs example_core ! 0)" "focus_ok example_core"
    by (simp_all add: example_core_def truthy_def focus_ok_def)
  have b: "tabs example_core_gap \<noteq> []" "truthy (tabs example_core_gap ! 0)"
    by (simp_all add: example_core_gap_def truthy_def)
  from focus_cursor_invariant [OF a(1,2), of 7 True "Some (OtherTab 1)"]
    focus_cursor_invariant [OF a(1,2), of "- 1" True "Some (OtherTab 1)"]
    focus_cursor_invariant [OF b, of 0 True None] a
  show ?thesis by (auto simp: example_core_def)
qed

section \<open>Properties of the timed events\<close>

lemma check_loop_eq:
  "check_loop h c now' xs evs fired =
     (fired @ takeWhile c (filter (\<lambda>e. h e now') xs) @
        take 1 (dropWhile c (filter (\<lambda>e. h e now') xs)),
      case dropWhile c (filter (\<lambda>e. h e now') xs) of [] \<Rightarrow> evs | e # rest \<Rightarrow> remove1 e evs)"
  by (induction xs arbitrary: fired) simp_all

lemma dropWhile_all: "(\<forall>x \<in> set xs. P x) \<Longrightarrow> dropWhile P xs = []"
  by (induction xs) simp_all

text \<open>
  Claim C8, amended. One call of \<open>check_timed_events\<close> calls the events that have timed
  out, in the order of the loop, up to and including the first one whose callback returns
  a false value; it removes this event and no other one from the set. When the callback of
  every event that has timed out returns a true value, all of them are called and the set
  stays as it was.
\<close>

theorem check_timed_events_until_removal:
  "check_timed_events has_timed_out call now' timed_events =
     (takeWhile call (filter (\<lambda>e. has_timed_out e now') timed_events) @
        take 1 (dropWhile call (filter (\<lambda>e. has_timed_out e now') timed_events)),
      case dropWhile call (filter (\<lambda>e. has_timed_out e now') timed_events) of
        [] \<Rightarrow> timed_events
      | event # rest \<Rightarrow> remove1 event timed_events) \<and>
   ((\<forall>e \<in> set timed_events. has_timed_out e now' \<longrightarrow> call e) \<longrightarrow>
      check_timed_events has_timed_out call now' timed_events =
        (filter (\<lambda>e. has_timed_out e now') timed_events, timed_events))"
proof (intro conjI impI)
  show "check_timed_events has_timed_out call now' timed_events =
     (takeWhile call (filter (\<lambda>e. has_timed_out e now') timed_events) @
        take 1 (dropWhile call (filter (\<lambda>e. has_timed_out e now') timed_events)),
      case dropWhile call (filter (\<lambda>e. has_timed_out e now') timed_events) of
        [] \<Rightarrow> timed_events
      | event # rest \<Rightarrow> remove1 event timed_events)"
    by (simp add: check_timed_events_def check_loop_eq)
next
  assume all: "\<forall>e \<in> set timed_events. has_timed_out e now' \<longrightarrow> call e"
  define xs where "xs = filter (\<lambda>e. has_timed_out e now') timed_events"
  from all have a: "\<forall>e \<in> set xs. call e" by (simp add: xs_def)
  then have d: "dropWhile call xs = []" by (rule dropWhile_all)
  from a have t: "takeWhile call xs = xs" by simp
  have "check_timed_events has_timed_out call now' timed_events =
      (takeWhile call xs @ take 1 (dropWhile call xs),
       case dropWhile call xs of [] \<Rightarrow> timed_events | event # rest \<Rightarrow> remove1 event timed_events)"
    unfolding xs_def by (simp add: check_timed_events_def check_loop_eq)
  then have "check_timed_events has_timed_out call now' timed_events = (xs, timed_events)"
    by (simp only: d t take.simps append_Nil2 list.case)
  then show "check_timed_events has_timed_out call now' timed_events =
        (filter (\<lambda>e. has_timed_out e now') timed_events, timed_events)"
    by (simp only: xs_def)
qed

text \<open>
  Claim C8 as the specification states it fails: an event is the time of its deadline, it
  has timed out when this time is not after \<open>now\<close>, and every callback returns a false
  value. At time 5 the events 1 and 2 have timed out; one call of \<open>check_timed_events\<close>
  calls the event 1 only and leaves the event 2 in the set.
\<close>

theorem check_timed_events_leaves_expired_event:
  "check_timed_events (\<lambda>e now'. e \<le> now') (\<lambda>e. False) (5 :: nat) [1, 2 :: nat] = ([1], [2])"
  by (simp add: check_timed_events_def)

text \<open>
  Claim C8, amended, on examples: with the event 2 as the only one whose callback returns a
  false value, and with no such event.
\<close>

theorem check_timed_events_until_removal_witness:
  "check_timed_events (\<lambda>e now'. e \<le> now') (\<lambda>e. e \<noteq> 2) (5 :: nat) [1, 2, 3, 9 :: nat] =
     ([1, 2], [1, 3, 9]) \<and>
   check_timed_events (\<lambda>e now'. e \<le> now') (\<lambda>e. True) (5 :: nat) [1, 2, 9 :: nat] =
     ([1, 2], [1, 2, 9])"
  using check_timed_events_until_removal
      [where has_timed_out = "\<lambda>e now'. e \<le> now'" and call = "\<lambda>e. e \<noteq> 2" and now' = "5 :: nat"
        and timed_events = "[1, 2, 3, 9 :: nat]"]
    check_timed_events_until_removal
      [where has_timed_out = "\<lambda>e now'. e \<le> now'" and call = "\<lambda>e. True" and now' = "5 :: nat"
        and timed_events = "[1, 2, 9 :: nat]"]
  by simp

section \<open>Properties of the main loop\<close>

lemma separate_loop_total:
  "[] \<notin> set char_list \<Longrightarrow> \<exists>runs. separate_loop n char_list res current = Inr runs"
  by (induction char_list arbitrary: res current) (auto simp: Let_def)

lemma paused_turns_eq:
  "[] \<notin> set runs \<Longrightarrow>
   paused_turns runs calls =
     (Inr (), calls @ concat (map (\<lambda>l. [Input_do_command (hd l), Input_prompt, Event_set]) runs))"
proof (induction runs arbitrary: calls)
  case Nil
  then show ?case by simp
next
  case (Cons l runs)
  then obtain x xs where l: "l = x # xs" by (cases l) auto
  from Cons show ?case by (simp add: l py_get_def)
qed

text \<open>
  Claim C9 on an input where the code departs from it. The keys \<open>a\<close> and \<open>b\<close> arrive in one
  batch while the loop is paused and nothing is bound. \<open>separate_chars_from_bindings\<close>
  puts them into one list, and the paused branch passes the first element of this list,
  \<open>a\<close>, to \<open>input.do_command\<close>: the key \<open>b\<close> is passed to nothing.
\<close>

theorem main_loop_paused_drops_key:
  "main_loop_paused no_bindings [''a'', ''b''] =
     (Inr (), [Input_do_command ''a'', Input_prompt, Event_set, Doupdate])"
  by (simp add: main_loop_paused_def separate_chars_from_bindings_def
      replace_key_with_bound_def no_bindings_def py_get_def Let_def)
end
